theory Spec2Isabelle
  imports Main "HOL-Library.Word" "HOL-Library.Log_Nat"
begin

section \<open>The Splash codec: a shallow embedding of the engine and its two drivers\<close>

text \<open>
  The development follows the three C sources of the codec: the shared header
  (\<^verbatim>\<open>SplashContext\<close>, \<^verbatim>\<open>splash_init\<close>, \<^verbatim>\<open>updateLines\<close>), the encoder
  (\<^verbatim>\<open>splash_encode\<close>) and the decoder (\<^verbatim>\<open>splash_decode\<close>).

  Conventions of the embedding.
  \<^item> \<^verbatim>\<open>uint8_t\<close> is \<open>8 word\<close>; a C \<^verbatim>\<open>int\<close> holding a byte or a blend result is \<open>int\<close>.
  \<^item> Ruler entries (\<^verbatim>\<open>uint32_t\<close>) are natural numbers. Both drivers only ever store values
    below \<open>2 ^ 24\<close> (the encoder clamps, the decoder reads three bytes), and the engine never
    increases an entry; in this range the mixed \<^verbatim>\<open>int\<close>/\<^verbatim>\<open>uint32_t\<close> comparisons and the
    sum \<^verbatim>\<open>worstXerr + worstYerr\<close> of the C code are the comparisons and the sum of naturals.
    The predicate \<open>ctx_ok\<close> records the range.
  \<^item> \<^verbatim>\<open>float\<close> and \<^verbatim>\<open>double\<close> are IEEE 754 binary32 and binary64 with round to nearest,
    ties to even, every operation rounded once to its own format (no excess precision).
    A finite float is the rational number it denotes; \<open>fl p\<close> rounds a rational to \<open>p\<close>
    significant bits. No value of the program leaves the normal range, so the exponent is
    not bounded in the model. Divisions by a zero \<^verbatim>\<open>radius\<close> (NaN, infinity) are written out
    where they occur.
  \<^item> The C library's \<^verbatim>\<open>assert\<close> is taken in its \<^verbatim>\<open>NDEBUG\<close> form (no effect);
    \<^verbatim>\<open>av_assert0\<close>, which is always checked and aborts, is the fault \<open>AssertFailed\<close>.
  \<^item> An access outside the canvas or outside the byte buffer \<^verbatim>\<open>ctx->data\<close> is undefined in
    C; the model returns the fault \<open>CanvasOutOfBounds\<close> or \<open>StreamOutOfBounds\<close> there.
\<close>

subsection \<open>Floating point\<close>

text \<open>Round a rational to the nearest integer, ties to even.\<close>

definition rne :: "rat \<Rightarrow> int" where
  "rne q = (let f = \<lfloor>q\<rfloor>; r = q - of_int f
            in if r < 1/2 then f else if 1/2 < r then f + 1 else if even f then f else f + 1)"

text \<open>C's \<^verbatim>\<open>round\<close>: nearest integer, halfway cases away from zero.\<close>

definition c_round :: "rat \<Rightarrow> int" where
  "c_round q = (if 0 \<le> q then \<lfloor>q + 1/2\<rfloor> else - \<lfloor>- q + 1/2\<rfloor>)"

text \<open>The binary exponent of a positive rational: \<open>2 powi ilog2 q \<le> q < 2 powi (ilog2 q + 1)\<close>.\<close>

definition ilog2 :: "rat \<Rightarrow> int" where
  "ilog2 q = (let (n, d) = quotient_of q; e = bitlen n - bitlen d
              in if 2 powi e \<le> q then e else e - 1)"

text \<open>Rounding to \<open>p\<close> significant bits: \<open>fl 24\<close> is binary32, \<open>fl 53\<close> is binary64.\<close>

definition fl :: "nat \<Rightarrow> rat \<Rightarrow> rat" where
  "fl p q = (if q = 0 then 0
             else let u = 2 powi (ilog2 \<bar>q\<bar> - int p + 1) in of_int (rne (q / u)) * u)"

text \<open>
  The correctly rounded square root of a non-negative integer, \<^verbatim>\<open>sqrt\<close> on a \<^verbatim>\<open>double\<close>
  that holds an \<^verbatim>\<open>int\<close>. \<open>isqrt\<close> is the integer square root, bit by bit; the argument
  is scaled so that the root has \<open>p + 1\<close> bits, the last of which decides the rounding
  (the root of an integer is never halfway between two neighbours).
\<close>

fun isqrt_bits :: "nat \<Rightarrow> int \<Rightarrow> int \<Rightarrow> int" where
  "isqrt_bits 0 n r = r"
| "isqrt_bits (Suc b) n r = (let c = r + 2 ^ b in isqrt_bits b n (if c * c \<le> n then c else r))"

definition isqrt :: "int \<Rightarrow> int" where
  "isqrt n = isqrt_bits (nat (bitlen n)) n 0"

definition sqrt_rn :: "nat \<Rightarrow> int \<Rightarrow> rat" where
  "sqrt_rn p n = (if n \<le> 0 then 0
     else let e = (bitlen n - 1) div 2; k = nat (int p - 1 - e);
              s = isqrt (4 * n * 4 ^ k)
          in of_int ((s + 1) div 2) / 2 ^ k)"

subsection \<open>Data model\<close>

type_synonym byte = "8 word"

text \<open>
  How a call can end without its result: with a negative error code as return value, with
  an access outside the canvas, with an access outside the byte stream, or in
  \<^verbatim>\<open>av_assert0\<close>.
\<close>

datatype fault =
    Returned int
  | CanvasOutOfBounds
  | StreamOutOfBounds
  | AssertFailed

text \<open>\<^verbatim>\<open>AVERROR(e)\<close>, \<^verbatim>\<open>ENOMEM\<close> and \<^verbatim>\<open>AVERROR_INVALIDDATA\<close>, as libavutil and errno define them.\<close>

definition AVERROR :: "int \<Rightarrow> int" where
  "AVERROR e = - e"

definition ENOMEM :: int where
  "ENOMEM = 12"

definition AVERROR_INVALIDDATA :: int where
  "AVERROR_INVALIDDATA = - 1094995529"

datatype AVPictureType = AV_PICTURE_TYPE_NONE | AV_PICTURE_TYPE_I

text \<open>The fields of \<^verbatim>\<open>AVFrame\<close> the codec touches: plane 0 and its stride.\<close>

record AVFrame =
  fdata :: "byte list"
  linesize :: nat
  key_frame :: bool
  pict_type :: AVPictureType

text \<open>\<^verbatim>\<open>AVPacket\<close>: the buffer, the size field, and the key-frame flag.\<close>

record AVPacket =
  pdata :: "byte list"
  psize :: nat
  flag_key :: bool

text \<open>
  \<^verbatim>\<open>SplashContext\<close>. The field \<^verbatim>\<open>size\<close> is \<open>size'\<close> here. \<open>data\<close> is the part of the
  packet buffer that \<^verbatim>\<open>ctx->data\<close> points to.
\<close>

record SplashContext =
  radius :: nat
  ppf :: rat
  ppk :: rat
  xError :: "nat list"
  yError :: "nat list"
  pixels :: "byte list"
  data :: "byte list"
  pos :: nat
  size' :: int
  numPixels :: nat

definition HEADER_LENGTH :: nat where
  "HEADER_LENGTH = 12"

definition HEADER_OFS_RADIUS :: nat where
  "HEADER_OFS_RADIUS = 10"

text \<open>A loop over a list that stops at the first fault.\<close>

fun foldE :: "('s \<Rightarrow> 'a \<Rightarrow> fault + 's) \<Rightarrow> 's \<Rightarrow> 'a list \<Rightarrow> fault + 's" where
  "foldE f s [] = Inr s"
| "foldE f s (x # xs) = (case f s x of Inl e \<Rightarrow> Inl e | Inr s' \<Rightarrow> foldE f s' xs)"

subsection \<open>\<^verbatim>\<open>splash_init\<close>\<close>

text \<open>
  The three \<^verbatim>\<open>av_malloc\<close> results are parameters: \<open>None\<close> is a null pointer, \<open>Some b\<close> is
  the block with whatever it held (\<^verbatim>\<open>av_malloc\<close> does not clear memory). The fill loop
  advances its pointer by three bytes per iteration.
\<close>

definition fill_gray :: "nat \<Rightarrow> byte list \<Rightarrow> byte list" where
  "fill_gray n px =
     foldl (\<lambda>p ji. p[3 * ji := 0x7f, 3 * ji + 1 := 0x7f, 3 * ji + 2 := 0x7f]) px [0..<n]"

definition splash_init ::
  "SplashContext \<Rightarrow> nat \<Rightarrow> nat \<Rightarrow> nat list option \<Rightarrow> nat list option \<Rightarrow> byte list option
     \<Rightarrow> fault + SplashContext" where
  "splash_init ctx width height xalloc yalloc palloc =
     (case (xalloc, yalloc, palloc) of
        (Some xe, Some ye, Some px) \<Rightarrow>
          Inr (ctx\<lparr>xError := xe, yError := ye, pixels := fill_gray (width * height) px\<rparr>)
      | _ \<Rightarrow> Inl (Returned (AVERROR ENOMEM)))"

text \<open>Channel \<open>c\<close> (0, 1, 2 for R, G, B) of canvas pixel \<open>(i, j)\<close>: the 4-byte stride of the engine.\<close>

definition channel :: "byte list \<Rightarrow> nat \<Rightarrow> nat \<Rightarrow> nat \<Rightarrow> nat \<Rightarrow> byte" where
  "channel px width i j c = px ! ((j * width + i) * 4 + c)"

subsection \<open>The engine, \<^verbatim>\<open>updateLines\<close>\<close>

text \<open>Step 1: the worst entry and its index; a later entry wins only when strictly greater.\<close>

definition worst :: "nat list \<Rightarrow> nat \<Rightarrow> nat \<times> nat" where
  "worst err n =
     foldl (\<lambda>(w, wi) i. if w < err ! i then (err ! i, i) else (w, wi)) (err ! 0, 0) [1..<n]"

text \<open>
  The range of the splash: at most \<open>radius - 1\<close> steps (\<^verbatim>\<open>for (r = 1; r < radius; r++)\<close>),
  stopping at the edge or before an entry that is zero.
\<close>

fun expand_min :: "nat list \<Rightarrow> nat \<Rightarrow> nat \<Rightarrow> nat" where
  "expand_min err 0 m = m"
| "expand_min err (Suc n) m =
     (if m = 0 \<or> err ! (m - 1) = 0 then m else expand_min err n (m - 1))"

fun expand_max :: "nat list \<Rightarrow> nat \<Rightarrow> nat \<Rightarrow> nat \<Rightarrow> nat" where
  "expand_max err len 0 m = m"
| "expand_max err len (Suc n) m =
     (if int len - 1 \<le> int m \<or> err ! (m + 1) = 0 then m else expand_max err len n (m + 1))"

text \<open>
  Step 4: \<^verbatim>\<open>round(xError[ii] * alpha)\<close> with \<^verbatim>\<open>float alpha = (float) FFABS(ii - i) / radius\<close>.
  With \<open>radius = 0\<close> the quotient is NaN and its conversion to \<^verbatim>\<open>uint32_t\<close> is undefined;
  the range then holds the pivot only, whose entry is overwritten with 0 right after.
\<close>

definition scale_error :: "nat \<Rightarrow> nat \<Rightarrow> nat \<Rightarrow> nat" where
  "scale_error e d r =
     (if r = 0 then 0
      else nat (c_round (fl 24 (fl 24 (of_nat e) * fl 24 (fl 24 (of_nat d) / fl 24 (of_nat r))))))"

definition rebalance_step :: "nat \<Rightarrow> nat \<Rightarrow> nat list \<Rightarrow> nat \<Rightarrow> nat list" where
  "rebalance_step r i err ii =
     (let v = scale_error (err ! ii) (if i \<le> ii then ii - i else i - ii) r
      in err[ii := (if i \<noteq> ii \<and> v = 0 then 1 else v)])"

definition rebalance :: "nat \<Rightarrow> nat \<Rightarrow> nat \<Rightarrow> nat \<Rightarrow> nat list \<Rightarrow> nat list" where
  "rebalance r i lo hi err = (foldl (rebalance_step r i) err [lo..<Suc hi])[i := 0]"

text \<open>
  Step 5(a): the sample at the cross point. The encoder reads it from the picture, writes
  it to the stream and counts it; the decoder takes it from the stream.
\<close>

definition read_sample ::
  "SplashContext \<Rightarrow> AVFrame \<Rightarrow> bool \<Rightarrow> nat \<Rightarrow> nat
     \<Rightarrow> fault + ((byte \<times> byte \<times> byte) \<times> SplashContext)" where
  "read_sample ctx pic encodeDecode i j =
     (if length (data ctx) < pos ctx + 3 then Inl StreamOutOfBounds
      else if encodeDecode then
        (let s = j * linesize pic + i * 4;
             srcR = fdata pic ! s; srcG = fdata pic ! (s + 1); srcB = fdata pic ! (s + 2)
         in Inr ((srcR, srcG, srcB),
                 ctx\<lparr>data := (data ctx)[pos ctx := srcR, pos ctx + 1 := srcG, pos ctx + 2 := srcB],
                     pos := pos ctx + 3, numPixels := numPixels ctx + 1\<rparr>))
      else
        Inr ((data ctx ! pos ctx, data ctx ! (pos ctx + 1), data ctx ! (pos ctx + 2)),
             ctx\<lparr>pos := pos ctx + 3\<rparr>))"

text \<open>
  Step 5(c). \<^verbatim>\<open>float fillAlpha = 1 - sqrt(n) / radius\<close> is computed in \<^verbatim>\<open>double\<close> and
  stored as a \<^verbatim>\<open>float\<close>; with \<open>radius = 0\<close> it is NaN or minus infinity, and
  \<^verbatim>\<open>fillAlpha > 0\<close> is false.
\<close>

definition fillAlpha_pos :: "int \<Rightarrow> nat \<Rightarrow> bool" where
  "fillAlpha_pos n r =
     (if r = 0 then False
      else 0 < fl 24 (fl 53 (1 - fl 53 (sqrt_rn 53 n / of_nat r))))"

text \<open>\<^verbatim>\<open>int alpha = 256 - round(256 * xyerr)\<close>, every intermediate a \<^verbatim>\<open>float\<close>.\<close>

definition blend_alpha :: "nat \<Rightarrow> nat \<Rightarrow> nat \<Rightarrow> int" where
  "blend_alpha xe ye maxError =
     (let xerr = fl 24 (fl 24 (of_nat xe) / fl 24 (of_nat maxError));
          yerr = fl 24 (fl 24 (of_nat ye) / fl 24 (of_nat maxError));
          xyerr = fl 24 (fl 24 (xerr + yerr) / 2)
      in 256 - c_round (fl 24 (256 * xyerr)))"

text \<open>\<^verbatim>\<open>((src * alpha) + (old * (256 - alpha))) >> 8\<close> on \<^verbatim>\<open>int\<close>.\<close>

definition blend :: "byte \<Rightarrow> byte \<Rightarrow> int \<Rightarrow> int" where
  "blend src old alpha = drop_bit 8 (uint src * alpha + uint old * (256 - alpha))"

definition splat_pixel ::
  "nat \<Rightarrow> nat \<Rightarrow> nat \<Rightarrow> nat \<Rightarrow> nat \<Rightarrow> byte \<times> byte \<times> byte \<Rightarrow> SplashContext \<Rightarrow> nat \<times> nat
     \<Rightarrow> fault + SplashContext" where
  "splat_pixel width r maxError i j src ctx c =
     (case src of (srcR, srcG, srcB) \<Rightarrow> case c of (ii, jj) \<Rightarrow>
        if fillAlpha_pos ((int ii - int i) * (int ii - int i) + (int jj - int j) * (int jj - int j)) r
        then
          let alpha = blend_alpha (xError ctx ! ii) (yError ctx ! jj) maxError;
              k = (jj * width + ii) * 4
          in if length (pixels ctx) < k + 3 then Inl CanvasOutOfBounds
             else
               let newR = blend srcR (pixels ctx ! k) alpha;
                   newG = blend srcG (pixels ctx ! (k + 1)) alpha;
                   newB = blend srcB (pixels ctx ! (k + 2)) alpha
               in if i = ii \<and> j = jj \<and> alpha \<noteq> 256 then Inl AssertFailed
                  else Inr (ctx\<lparr>pixels := (pixels ctx)[k := word_of_int newR,
                                 k + 1 := word_of_int newG, k + 2 := word_of_int newB]\<rparr>)
        else Inr ctx)"

text \<open>The cells of one splash, in the order of the two nested loops of each branch.\<close>

definition cells_col :: "nat \<Rightarrow> nat \<Rightarrow> nat \<Rightarrow> nat \<Rightarrow> (nat \<times> nat) list" where
  "cells_col minI maxI minJ maxJ =
     concat (map (\<lambda>jj. map (\<lambda>ii. (ii, jj)) [minI..<Suc maxI]) [minJ..<Suc maxJ])"

definition cells_row :: "nat \<Rightarrow> nat \<Rightarrow> nat \<Rightarrow> nat \<Rightarrow> (nat \<times> nat) list" where
  "cells_row minI maxI minJ maxJ =
     concat (map (\<lambda>ii. map (\<lambda>jj. (ii, jj)) [minJ..<Suc maxJ]) [minI..<Suc maxI])"

text \<open>One row \<open>j\<close> of the scan of a column-major iteration (pivot column \<open>i\<close>).\<close>

definition cross_col ::
  "nat \<Rightarrow> nat \<Rightarrow> AVFrame \<Rightarrow> nat \<Rightarrow> bool \<Rightarrow> nat \<Rightarrow> nat \<Rightarrow> nat \<Rightarrow> nat \<Rightarrow> SplashContext \<Rightarrow> nat
     \<Rightarrow> fault + SplashContext" where
  "cross_col width height pic r encodeDecode i minI maxI maxError ctx j =
     (if yError ctx ! j = 0 then
        (case read_sample ctx pic encodeDecode i j of
           Inl e \<Rightarrow> Inl e
         | Inr (src, ctx1) \<Rightarrow>
             let minJ = expand_min (yError ctx1) (r - 1) j;
                 maxJ = expand_max (yError ctx1) height (r - 1) j
             in foldE (splat_pixel width r maxError i j src) ctx1 (cells_col minI maxI minJ maxJ))
      else Inr ctx)"

text \<open>One column \<open>i\<close> of the scan of a row-major iteration (pivot row \<open>j\<close>).\<close>

definition cross_row ::
  "nat \<Rightarrow> nat \<Rightarrow> AVFrame \<Rightarrow> nat \<Rightarrow> bool \<Rightarrow> nat \<Rightarrow> nat \<Rightarrow> nat \<Rightarrow> nat \<Rightarrow> SplashContext \<Rightarrow> nat
     \<Rightarrow> fault + SplashContext" where
  "cross_row width height pic r encodeDecode j minJ maxJ maxError ctx i =
     (if xError ctx ! i = 0 then
        (case read_sample ctx pic encodeDecode i j of
           Inl e \<Rightarrow> Inl e
         | Inr (src, ctx1) \<Rightarrow>
             let minI = expand_min (xError ctx1) (r - 1) i;
                 maxI = expand_max (xError ctx1) width (r - 1) i
             in foldE (splat_pixel width r maxError i j src) ctx1 (cells_row minI maxI minJ maxJ))
      else Inr ctx)"

text \<open>
  \<^verbatim>\<open>updateLines\<close>. The C function keeps the stream pointer in a local and stores
  \<^verbatim>\<open>ctx->pos\<close> once at the end; here \<open>pos\<close> is advanced with every sample. The result is
  the returned flag and the context.
\<close>

definition updateLines ::
  "SplashContext \<Rightarrow> nat \<Rightarrow> nat \<Rightarrow> AVFrame \<Rightarrow> nat \<Rightarrow> bool \<Rightarrow> fault + (bool \<times> SplashContext)" where
  "updateLines ctx width height pic r encodeDecode =
     (case worst (xError ctx) width of (worstXerr, worstXi) \<Rightarrow>
      case worst (yError ctx) height of (worstYerr, worstYj) \<Rightarrow>
        if worstXerr + worstYerr = 0 then Inr (False, ctx)
        else if worstYerr < worstXerr then
          (let i = worstXi;
               minI = expand_min (xError ctx) (r - 1) i;
               maxI = expand_max (xError ctx) width (r - 1) i;
               maxError = xError ctx ! i;
               ctx1 = ctx\<lparr>xError := rebalance r i minI maxI (xError ctx)\<rparr>
           in case foldE (cross_col width height pic r encodeDecode i minI maxI maxError) ctx1
                     [0..<height] of
                Inl e \<Rightarrow> Inl e
              | Inr ctx2 \<Rightarrow> Inr (True, ctx2))
        else
          (let j = worstYj;
               minJ = expand_min (yError ctx) (r - 1) j;
               maxJ = expand_max (yError ctx) height (r - 1) j;
               maxError = yError ctx ! j;
               ctx1 = ctx\<lparr>yError := rebalance r j minJ maxJ (yError ctx)\<rparr>
           in case foldE (cross_row width height pic r encodeDecode j minJ maxJ maxError) ctx1
                     [0..<width] of
                Inl e \<Rightarrow> Inl e
              | Inr ctx2 \<Rightarrow> Inr (True, ctx2)))"

text \<open>
  The contexts the drivers build: positive dimensions, rulers and canvas of the allocated
  sizes, ruler entries of 24 bits.
\<close>

definition ctx_ok :: "nat \<Rightarrow> nat \<Rightarrow> SplashContext \<Rightarrow> bool" where
  "ctx_ok width height ctx =
     (0 < width \<and> 0 < height \<and> length (xError ctx) = width \<and> length (yError ctx) = height \<and>
      length (pixels ctx) = width * height * 4 \<and>
      list_all (\<lambda>e. e < 2 ^ 24) (xError ctx) \<and> list_all (\<lambda>e. e < 2 ^ 24) (yError ctx))"

text \<open>
  Two notions used in the proofs. \<open>scaled\<close> is the value Step 4 stores at an index of the
  range; \<open>scan_rel\<close> relates the context before and after any part of the scan of Step 5,
  which leaves the rulers alone and only moves the stream forward.
\<close>

definition scaled :: "nat \<Rightarrow> nat \<Rightarrow> nat \<Rightarrow> nat \<Rightarrow> nat" where
  "scaled r i e k = (let v = scale_error e (if i \<le> k then k - i else i - k) r
                     in if i \<noteq> k \<and> v = 0 then 1 else v)"

definition scan_rel :: "SplashContext \<Rightarrow> SplashContext \<Rightarrow> bool" where
  "scan_rel c c' =
     (xError c' = xError c \<and> yError c' = yError c \<and> length (pixels c') = length (pixels c) \<and>
      radius c' = radius c \<and> ppf c' = ppf c \<and> ppk c' = ppk c \<and> size' c' = size' c \<and>
      length (data c') = length (data c) \<and> pos c \<le> pos c' \<and> numPixels c \<le> numPixels c')"

text \<open>
  The number of exact lines (ruler entry zero) before line \<open>j\<close>: the scan of Step 5
  visits them in order, one sample of three bytes each.
\<close>

definition exact_before :: "nat list \<Rightarrow> nat \<Rightarrow> nat" where
  "exact_before err j = length (filter (\<lambda>k. err ! k = 0) [0..<j])"


subsection \<open>The encoder, \<^verbatim>\<open>splash_encode\<close>\<close>

text \<open>
  \<^verbatim>\<open>FFABS(pixels[k + c] - rgb[c])\<close> summed over the three channels of pixel \<open>(i, j)\<close>. The
  picture is the host's: plane 0 holds \<open>height\<close> lines of \<open>linesize\<close> bytes each.
\<close>

definition pixel_error :: "byte list \<Rightarrow> AVFrame \<Rightarrow> nat \<Rightarrow> nat \<Rightarrow> nat \<Rightarrow> int" where
  "pixel_error px pic width i j =
     (let k = (j * width + i) * 4; s = j * linesize pic + i * 4
      in \<bar>uint (px ! k) - uint (fdata pic ! s)\<bar>
       + \<bar>uint (px ! (k + 1)) - uint (fdata pic ! (s + 1))\<bar>
       + \<bar>uint (px ! (k + 2)) - uint (fdata pic ! (s + 2))\<bar>)"

definition clamp24 :: "int \<Rightarrow> int" where
  "clamp24 err = (if 0xffffff < err then 0xffffff else err)"

definition column_error :: "byte list \<Rightarrow> AVFrame \<Rightarrow> nat \<Rightarrow> nat \<Rightarrow> nat \<Rightarrow> int" where
  "column_error px pic width height i =
     clamp24 (foldl (\<lambda>err j. err + pixel_error px pic width i j) 0 [0..<height])"

definition row_error :: "byte list \<Rightarrow> AVFrame \<Rightarrow> nat \<Rightarrow> nat \<Rightarrow> nat \<Rightarrow> int" where
  "row_error px pic width height j =
     clamp24 (foldl (\<lambda>err i. err + pixel_error px pic width i j) 0 [0..<width])"

text \<open>Three bytes, least significant first: \<^verbatim>\<open>*pData++ = err; err >> 8; err >> 16\<close>.\<close>

definition put_le24 :: "byte list \<Rightarrow> nat \<Rightarrow> int \<Rightarrow> byte list" where
  "put_le24 d p err =
     d[p := word_of_int err, p + 1 := word_of_int (drop_bit 8 err),
       p + 2 := word_of_int (drop_bit 16 err)]"

definition emit_xError :: "AVFrame \<Rightarrow> nat \<Rightarrow> nat \<Rightarrow> SplashContext \<Rightarrow> SplashContext" where
  "emit_xError pic width height ctx =
     foldl (\<lambda>c i. let err = column_error (pixels c) pic width height i
                  in c\<lparr>xError := (xError c)[i := nat err],
                       data := put_le24 (data c) (pos c) err, pos := pos c + 3\<rparr>)
           ctx [0..<width]"

definition emit_yError :: "AVFrame \<Rightarrow> nat \<Rightarrow> nat \<Rightarrow> SplashContext \<Rightarrow> SplashContext" where
  "emit_yError pic width height ctx =
     foldl (\<lambda>c j. let err = row_error (pixels c) pic width height j
                  in c\<lparr>yError := (yError c)[j := nat err],
                       data := put_le24 (data c) (pos c) err, pos := pos c + 3\<rparr>)
           ctx [0..<height]"

text \<open>
  \<^verbatim>\<open>round(width * height / ctx->ppk)\<close>: the product is an \<^verbatim>\<open>int\<close>, converted to
  \<^verbatim>\<open>float\<close> for the division.
\<close>

definition max_pixels :: "nat \<Rightarrow> nat \<Rightarrow> rat \<Rightarrow> int" where
  "max_pixels width height pp = c_round (fl 24 (fl 24 (of_nat (width * height)) / pp))"

text \<open>
  \<^verbatim>\<open>do { if (!updateLines(...)) break; } while (ctx->numPixels < maxPixels);\<close>
  A run that never ends is \<open>None\<close>.
\<close>

partial_function (option) encode_loop ::
  "nat \<Rightarrow> nat \<Rightarrow> AVFrame \<Rightarrow> int \<Rightarrow> SplashContext \<Rightarrow> (fault + SplashContext) option" where
  "encode_loop width height pic maxPixels ctx =
     (case updateLines ctx width height pic (radius ctx) True of
        Inl e \<Rightarrow> Some (Inl e)
      | Inr (b, ctx') \<Rightarrow>
          if b then
            (if int (numPixels ctx') < maxPixels
             then encode_loop width height pic maxPixels ctx'
             else Some (Inr ctx'))
          else Some (Inr ctx'))"

declare encode_loop.simps [code]

text \<open>The twelve header bytes; the radius is stored in one byte.\<close>

definition header :: "nat \<Rightarrow> byte list" where
  "header r = [12, 0, 0, 0x73, 0x70, 0x6c, 0x61, 0x73, 0x68, 1, word_of_nat r, 0]"

text \<open>
  \<^verbatim>\<open>splash_encode\<close>. \<open>ff_alloc_packet2\<close> is the host's allocator: given the size it
  returns an error code or a buffer of that size, contents unspecified. \<^verbatim>\<open>ctx->data\<close>
  points into the packet right after the header, so the packet is the header followed by
  \<open>data\<close>; its size field is set to \<open>HEADER_LENGTH + pos\<close>. The result is the packet,
  \<^verbatim>\<open>*got_packet\<close> and the context (the function returns 0). The comparison of the final
  canvas with the target for \<^verbatim>\<open>ppf == 1\<close> only logs a warning and is left out.
\<close>

definition splash_encode ::
  "SplashContext \<Rightarrow> nat \<Rightarrow> nat \<Rightarrow> nat \<Rightarrow> (nat \<Rightarrow> int + byte list) \<Rightarrow> AVFrame
     \<Rightarrow> (fault + (AVPacket \<times> bool \<times> SplashContext)) option" where
  "splash_encode ctx width height frame_number ff_alloc_packet2 pic =
     (case ff_alloc_packet2 ((HEADER_LENGTH + width + height + width * height) * 3) of
        Inl ret \<Rightarrow> Some (Inl (Returned ret))
      | Inr buf \<Rightarrow>
          let ctx1 = ctx\<lparr>data := drop HEADER_LENGTH buf, pos := 0,
                         size' := int (length buf) - int HEADER_LENGTH\<rparr>;
              ctx2 = emit_xError pic width height ctx1;
              ctx3 = emit_yError pic width height ctx2;
              ctx4 = ctx3\<lparr>numPixels := 0\<rparr>;
              maxPixels = (if frame_number = 0 then max_pixels width height (ppk ctx)
                           else max_pixels width height (ppf ctx))
          in case encode_loop width height pic maxPixels ctx4 of
               None \<Rightarrow> None
             | Some (Inl e) \<Rightarrow> Some (Inl e)
             | Some (Inr ctx5) \<Rightarrow>
                 Some (Inr (\<lparr>pdata = header (radius ctx) @ data ctx5,
                             psize = HEADER_LENGTH + pos ctx5, flag_key = True\<rparr>, True, ctx5)))"

subsection \<open>The decoder, \<^verbatim>\<open>splash_decode\<close>\<close>

text \<open>\<^verbatim>\<open>err = p[0]; err |= p[1] << 8; err |= p[2] << 16\<close>.\<close>

definition get_le24 :: "byte list \<Rightarrow> nat \<Rightarrow> nat" where
  "get_le24 d p =
     or (or (unat (d ! p)) (push_bit 8 (unat (d ! (p + 1))))) (push_bit 16 (unat (d ! (p + 2))))"

definition load_xError :: "SplashContext \<Rightarrow> nat \<Rightarrow> fault + SplashContext" where
  "load_xError c i =
     (if length (data c) < pos c + 3 then Inl StreamOutOfBounds
      else Inr (c\<lparr>xError := (xError c)[i := get_le24 (data c) (pos c)], pos := pos c + 3\<rparr>))"

definition load_yError :: "SplashContext \<Rightarrow> nat \<Rightarrow> fault + SplashContext" where
  "load_yError c j =
     (if length (data c) < pos c + 3 then Inl StreamOutOfBounds
      else Inr (c\<lparr>yError := (yError c)[j := get_le24 (data c) (pos c)], pos := pos c + 3\<rparr>))"

text \<open>\<^verbatim>\<open>do { if (!updateLines(...)) break; } while (ctx->pos < ctx->size);\<close>\<close>

partial_function (option) decode_loop ::
  "nat \<Rightarrow> nat \<Rightarrow> AVFrame \<Rightarrow> nat \<Rightarrow> SplashContext \<Rightarrow> (fault + SplashContext) option" where
  "decode_loop width height pic r ctx =
     (case updateLines ctx width height pic r False of
        Inl e \<Rightarrow> Some (Inl e)
      | Inr (b, ctx') \<Rightarrow>
          if b then
            (if int (pos ctx') < size' ctx'
             then decode_loop width height pic r ctx'
             else Some (Inr ctx'))
          else Some (Inr ctx'))"

declare decode_loop.simps [code]

text \<open>The export: three canvas bytes and 255 per pixel, line \<open>j\<close> at \<open>j * linesize\<close>.\<close>

definition export_pixel :: "byte list \<Rightarrow> nat \<Rightarrow> nat \<Rightarrow> nat \<Rightarrow> byte list \<Rightarrow> nat \<Rightarrow> byte list" where
  "export_pixel px width ls j fd i =
     (let k = (j * width + i) * 4; s = j * ls + i * 4
      in fd[s := px ! k, s + 1 := px ! (k + 1), s + 2 := px ! (k + 2), s + 3 := 255])"

definition export_frame :: "byte list \<Rightarrow> nat \<Rightarrow> nat \<Rightarrow> AVFrame \<Rightarrow> AVFrame" where
  "export_frame px width height pic =
     pic\<lparr>fdata := foldl (\<lambda>fd j. foldl (export_pixel px width (linesize pic) j) fd [0..<width])
                         (fdata pic) [0..<height]\<rparr>"

text \<open>
  \<^verbatim>\<open>splash_decode\<close>. \<open>ff_get_buffer\<close> is the host's answer: an error code or the frame
  to fill. The result is the frame, \<^verbatim>\<open>*got_frame\<close>, the returned value and the context.
  The warning for \<^verbatim>\<open>ctx->pos != ctx->size\<close> is only logged and is left out.
\<close>

definition splash_decode ::
  "SplashContext \<Rightarrow> nat \<Rightarrow> nat \<Rightarrow> int + AVFrame \<Rightarrow> AVPacket
     \<Rightarrow> (fault + (AVFrame \<times> bool \<times> int \<times> SplashContext)) option" where
  "splash_decode ctx width height ff_get_buffer avpkt =
     (case ff_get_buffer of
        Inl ret \<Rightarrow> Some (Inl (Returned ret))
      | Inr pic \<Rightarrow>
          if length (pdata avpkt) < HEADER_OFS_RADIUS + 1 then Some (Inl StreamOutOfBounds)
          else
            let hdrLength = get_le24 (pdata avpkt) 0;
                r = unat (pdata avpkt ! HEADER_OFS_RADIUS);
                ctx1 = ctx\<lparr>data := drop hdrLength (pdata avpkt), pos := 0,
                           size' := int (psize avpkt) - int HEADER_LENGTH\<rparr>
            in case foldE load_xError ctx1 [0..<width] of
                 Inl e \<Rightarrow> Some (Inl e)
               | Inr ctx2 \<Rightarrow>
                   (case foldE load_yError ctx2 [0..<height] of
                      Inl e \<Rightarrow> Some (Inl e)
                    | Inr ctx3 \<Rightarrow>
                        (case decode_loop width height pic r ctx3 of
                           None \<Rightarrow> None
                         | Some (Inl e) \<Rightarrow> Some (Inl e)
                         | Some (Inr ctx4) \<Rightarrow>
                             Some (Inr (export_frame (pixels ctx4) width height pic
                                          \<lparr>key_frame := True, pict_type := AV_PICTURE_TYPE_I\<rparr>,
                                        True, int (psize avpkt), ctx4)))))"

text \<open>The host's contract for a picture: lines of at least \<open>4 * width\<close> bytes, \<open>height\<close> of them.\<close>

definition frame_ok :: "nat \<Rightarrow> nat \<Rightarrow> AVFrame \<Rightarrow> bool" where
  "frame_ok width height pic =
     (4 * width \<le> linesize pic \<and> height * linesize pic \<le> length (fdata pic))"

text \<open>
  What encoder and decoder share during a frame: canvas, both rulers and the stream cursor.
\<close>

definition same_view :: "SplashContext \<Rightarrow> SplashContext \<Rightarrow> bool" where
  "same_view e d =
     (pixels d = pixels e \<and> xError d = xError e \<and> yError d = yError e \<and> pos d = pos e)"

text \<open>
  The runs of the encoder's loop that end, as a relation between the context at the start
  of an iteration and the context the loop ends with: the engine reports nothing left to
  do, or the sample budget is reached, or the loop goes round again.
\<close>

inductive enc_run :: "nat \<Rightarrow> nat \<Rightarrow> AVFrame \<Rightarrow> int \<Rightarrow> SplashContext \<Rightarrow> SplashContext \<Rightarrow> bool"
  for width height pic maxPixels where
    stop_idle: "updateLines e width height pic (radius e) True = Inr (False, e')
                  \<Longrightarrow> enc_run width height pic maxPixels e e'"
  | stop_budget: "updateLines e width height pic (radius e) True = Inr (True, e')
                  \<Longrightarrow> \<not> int (numPixels e') < maxPixels
                  \<Longrightarrow> enc_run width height pic maxPixels e e'"
  | again: "updateLines e width height pic (radius e) True = Inr (True, e')
                  \<Longrightarrow> int (numPixels e') < maxPixels
                  \<Longrightarrow> enc_run width height pic maxPixels e' e5
                  \<Longrightarrow> enc_run width height pic maxPixels e e5"

subsection \<open>Small concrete contexts\<close>

text \<open>
  A 3 by 1 canvas whose worst column is the middle one, with no exact row yet: one
  column-major iteration rebalances the ruler and paints nothing.
\<close>

definition ex_ctx :: SplashContext where
  "ex_ctx = \<lparr>radius = 5, ppf = 1, ppk = 2, xError = [100, 200, 50], yError = [7],
             pixels = replicate 12 0x7f, data = [], pos = 0, size' = 0, numPixels = 0\<rparr>"

definition ex_pic :: AVFrame where
  "ex_pic = \<lparr>fdata = replicate 12 0, linesize = 12, key_frame = False,
             pict_type = AV_PICTURE_TYPE_NONE\<rparr>"

text \<open>
  The second iteration of the 1 by 1 scenario of the specification (target \<open>(10, 20, 30)\<close>,
  radius 1), on the decoder's side: the row is exact already, the column is the pivot, and
  the stream holds the two rulers and the sample.
\<close>

definition ex1_ctx :: SplashContext where
  "ex1_ctx = \<lparr>radius = 1, ppf = 1, ppk = 1, xError = [321], yError = [0],
              pixels = [0x7f, 0x7f, 0x7f, 0],
              data = [0x41, 1, 0, 0x41, 1, 0, 10, 20, 30], pos = 6, size' = 9, numPixels = 0\<rparr>"

definition ex1_pic :: AVFrame where
  "ex1_pic = \<lparr>fdata = [10, 20, 30, 0], linesize = 4, key_frame = False,
              pict_type = AV_PICTURE_TYPE_NONE\<rparr>"


text \<open>
  A host allocator that hands out zeroed buffers of the requested size, and the first frame
  of the 1 by 1 scenario on the encoder's side: a gray canvas, target \<open>(10, 20, 30)\<close>
  (\<open>ex1_pic\<close>), radius 1.
\<close>

definition host_alloc :: "nat \<Rightarrow> int + byte list" where
  "host_alloc n = Inr (replicate n 0)"

definition rt_ctx :: SplashContext where
  "rt_ctx = \<lparr>radius = 1, ppf = 1, ppk = 1, xError = [0], yError = [0],
             pixels = [0x7f, 0x7f, 0x7f, 0], data = [], pos = 0, size' = 0, numPixels = 0\<rparr>"

text \<open>
  A 2 by 1 gray canvas with a brush radius of 257, which the options of the encoder allow
  (\<^verbatim>\<open>radius\<close> ranges over \<^verbatim>\<open>1 .. INT_MAX\<close>), and a target whose left pixel is black and
  whose right pixel is almost gray.
\<close>

definition wide_ctx :: SplashContext where
  "wide_ctx = \<lparr>radius = 257, ppf = 1, ppk = 2, xError = [0, 0], yError = [0],
               pixels = [0x7f, 0x7f, 0x7f, 0, 0x7f, 0x7f, 0x7f, 0], data = [], pos = 0,
               size' = 0, numPixels = 0\<rparr>"

definition wide_pic :: AVFrame where
  "wide_pic = \<lparr>fdata = [0, 0, 0, 0, 0x7e, 0x7f, 0x7f, 0], linesize = 8, key_frame = False,
               pict_type = AV_PICTURE_TYPE_NONE\<rparr>"

section \<open>Properties\<close>

lemma rne_of_int: "rne (of_int k) = k"
  by (simp add: rne_def)

lemma rne_bounds: "\<lfloor>q\<rfloor> \<le> rne q \<and> rne q \<le> \<lfloor>q\<rfloor> + 1"
  by (simp add: rne_def Let_def)

lemma rne_mono: assumes "a \<le> b" shows "rne a \<le> rne b"
proof (cases "\<lfloor>a\<rfloor> < \<lfloor>b\<rfloor>")
  case True
  then show ?thesis using rne_bounds[of a] rne_bounds[of b] by linarith
next
  case False
  then have eq: "\<lfloor>a\<rfloor> = \<lfloor>b\<rfloor>" using assms floor_mono[of a b] by linarith
  then have "a - of_int \<lfloor>a\<rfloor> \<le> b - of_int \<lfloor>b\<rfloor>" using assms by simp
  then show ?thesis using eq by (auto simp: rne_def Let_def)
qed

lemma bitlen_powi_bounds: assumes "0 < n"
  shows "2 powi (bitlen n - 1) \<le> (of_int n :: rat)" "(of_int n :: rat) < 2 powi (bitlen n)"
proof -
  have b: "1 \<le> bitlen n" using assms bitlen_eq_zero_iff[of n] bitlen_nonneg[of n] by linarith
  have "(2::int) ^ nat (bitlen n - 1) \<le> n" "n < 2 ^ nat (bitlen n)"
    using bitlen_bounds[OF assms] by auto
  then have "(of_int ((2::int) ^ nat (bitlen n - 1)) :: rat) \<le> of_int n" "(of_int n :: rat) < of_int (2 ^ nat (bitlen n))"
    by (simp_all only: of_int_le_iff of_int_less_iff)
  then show "2 powi (bitlen n - 1) \<le> (of_int n :: rat)" "(of_int n :: rat) < 2 powi (bitlen n)"
    using b by (simp_all add: power_int_def)
qed

lemma powi2_pos: "0 < (2::rat) powi e"
  by (simp add: zero_less_power_int)

lemma powi2_mono: "a \<le> b \<Longrightarrow> (2::rat) powi a \<le> 2 powi b"
  by (rule power_int_increasing) simp_all

lemma powi2_strict_mono: "a < b \<Longrightarrow> (2::rat) powi a < 2 powi b"
  by (rule power_int_strict_increasing) simp_all

lemma ilog2_bounds: assumes "0 < q"
  shows "2 powi (ilog2 q) \<le> q \<and> q < 2 powi (ilog2 q + 1)"
proof -
  obtain n d where nd: "quotient_of q = (n, d)" by (cases "quotient_of q")
  have d: "0 < d" using quotient_of_denom_pos[OF nd] .
  have q: "q = of_int n / of_int d" using quotient_of_div[OF nd] .
  have n: "0 < n" using assms d q by (simp add: zero_less_divide_iff)
  let ?e = "bitlen n - bitlen d"
  note bn = bitlen_powi_bounds[OF n] and bd = bitlen_powi_bounds[OF d]
  have dpos: "(0::rat) < of_int d" using d by simp
  have "q < 2 powi (bitlen n) / of_int d"
    unfolding q using bn(2) dpos by (simp add: divide_strict_right_mono)
  also have "\<dots> \<le> 2 powi (bitlen n) / 2 powi (bitlen d - 1)"
    using bd(1) powi2_pos[of "bitlen d - 1"] powi2_pos[of "bitlen n"] d
    by (intro divide_left_mono) (auto simp: zero_less_mult_iff)
  also have "\<dots> = 2 powi (?e + 1)"
    by (simp add: power_int_diff power_int_add)
  finally have up: "q < 2 powi (?e + 1)" .
  have "2 powi (?e - 1) = 2 powi (bitlen n - 1) / (2::rat) powi (bitlen d)"
    by (simp add: power_int_diff)
  also have "\<dots> \<le> of_int n / 2 powi (bitlen d)"
    using bn(1) powi2_pos[of "bitlen d"] by (simp add: divide_right_mono)
  also have "\<dots> \<le> of_int n / of_int d"
    using bd(2) n d powi2_pos[of "bitlen d"] by (intro divide_left_mono) (auto simp: zero_less_mult_iff)
  finally have lo: "2 powi (?e - 1) \<le> q" unfolding q .
  show ?thesis using up lo nd by (auto simp: ilog2_def Let_def)
qed

lemma ilog2_unique: assumes "2 powi e \<le> q" "q < 2 powi (e + 1)"
  shows "ilog2 q = e"
proof -
  have qpos: "0 < q" using assms(1) powi2_pos[of e] by linarith
  note b = ilog2_bounds[OF qpos]
  have "2 powi e < (2::rat) powi (ilog2 q + 1)" using assms(1) b by linarith
  then have 1: "e < ilog2 q + 1" 
    using powi2_mono[of "ilog2 q + 1" e] by (cases "e < ilog2 q + 1") auto
  have "2 powi (ilog2 q) < (2::rat) powi (e + 1)" using assms(2) b by linarith
  then have 2: "ilog2 q < e + 1"
    using powi2_mono[of "e + 1" "ilog2 q"] by (cases "ilog2 q < e + 1") auto
  show ?thesis using 1 2 by linarith
qed

lemma ilog2_mono: assumes "0 < a" "a \<le> b" shows "ilog2 a \<le> ilog2 b"
proof (rule ccontr)
  assume "\<not> ilog2 a \<le> ilog2 b"
  then have "ilog2 b + 1 \<le> ilog2 a" by simp
  then have "(2::rat) powi (ilog2 b + 1) \<le> 2 powi (ilog2 a)" by (rule powi2_mono)
  moreover have "0 < b" using assms by linarith
  ultimately show False using ilog2_bounds[OF assms(1)] ilog2_bounds[of b] assms(2) by linarith
qed


lemma fl_binade: assumes "0 < q" "0 < p"
  shows "2 powi (ilog2 q) \<le> fl p q \<and> fl p q \<le> 2 powi (ilog2 q + 1)"
proof -
  let ?e = "ilog2 q"
  let ?u = "(2::rat) powi (?e - int p + 1)"
  have u: "0 < ?u" by (rule powi2_pos)
  have fl: "fl p q = of_int (rne (q / ?u)) * ?u" using assms by (simp add: fl_def Let_def)
  have "(2::rat) powi ?e / ?u = 2 powi (?e - (?e - int p + 1))"
    by (subst power_int_diff) simp_all
  also have "?e - (?e - int p + 1) = int (p - 1)" using assms(2) by simp
  finally have lo_eq: "(2::rat) powi ?e / ?u = of_int (2 ^ (p - 1))"
    by (simp only: power_int_of_nat) simp
  have "(2::rat) powi (?e + 1) / ?u = 2 powi (?e + 1 - (?e - int p + 1))"
    by (subst power_int_diff) simp_all
  also have "?e + 1 - (?e - int p + 1) = int p" by simp
  finally have hi_eq: "(2::rat) powi (?e + 1) / ?u = of_int (2 ^ p)"
    by (simp only: power_int_of_nat) simp
  have "q / ?u \<ge> of_int (2 ^ (p - 1))"
    using ilog2_bounds[OF assms(1)] u lo_eq[symmetric] by (simp add: divide_right_mono)
  then have 1: "rne (q / ?u) \<ge> 2 ^ (p - 1)" using rne_mono rne_of_int by metis
  have "q / ?u \<le> of_int (2 ^ p)"
    using ilog2_bounds[OF assms(1)] u hi_eq[symmetric] by (simp add: divide_right_mono)
  then have 2: "rne (q / ?u) \<le> 2 ^ p" using rne_mono rne_of_int by metis
  have r1: "(of_int (2 ^ (p - 1)) :: rat) \<le> of_int (rne (q / ?u))"
    using 1 by (simp only: of_int_le_iff)
  have r2: "(of_int (rne (q / ?u)) :: rat) \<le> of_int (2 ^ p)"
    using 2 by (simp only: of_int_le_iff)
  have u0: "0 \<le> ?u" using u by simp
  have "of_int (2 ^ (p - 1)) * ?u \<le> fl p q" unfolding fl
    by (rule mult_right_mono[OF r1 u0])
  moreover have "fl p q \<le> of_int (2 ^ p) * ?u" unfolding fl
    by (rule mult_right_mono[OF r2 u0])
  moreover have "of_int (2 ^ (p - 1)) * ?u = 2 powi ?e" using lo_eq u by (simp add: field_simps)
  moreover have "of_int (2 ^ p) * ?u = 2 powi (?e + 1)" using hi_eq u by (simp add: field_simps)
  ultimately show ?thesis by simp
qed



lemma fl_zero: "fl p 0 = 0"
  by (simp add: fl_def)

lemma fl_pos: "0 < q \<Longrightarrow> 0 < p \<Longrightarrow> 0 < fl p q"
  using fl_binade[of q p] powi2_pos[of "ilog2 q"] by linarith

lemma fl_mono_nonneg: assumes "0 \<le> a" "a \<le> b" "0 < p" shows "fl p a \<le> fl p b"
proof (cases "a = 0")
  case True
  then show ?thesis using fl_pos[of b p] assms by (cases "b = 0") (auto simp: fl_zero)
next
  case False
  then have a: "0 < a" and b: "0 < b" using assms by auto
  have le: "ilog2 a \<le> ilog2 b" using ilog2_mono[OF a assms(2)] .
  show ?thesis
  proof (cases "ilog2 a = ilog2 b")
    case True
    let ?u = "(2::rat) powi (ilog2 b - int p + 1)"
    have u: "0 < ?u" by (rule powi2_pos)
    have "a / ?u \<le> b / ?u" using assms(2) u by (simp add: divide_right_mono)
    then have "rne (a / ?u) \<le> rne (b / ?u)" by (rule rne_mono)
    then have "(of_int (rne (a / ?u)) :: rat) \<le> of_int (rne (b / ?u))" by (simp only: of_int_le_iff)
    then have "of_int (rne (a / ?u)) * ?u \<le> of_int (rne (b / ?u)) * ?u"
      using u by (intro mult_right_mono) simp_all
    then show ?thesis using a b True by (simp add: fl_def Let_def)
  next
    case False
    then have "ilog2 a + 1 \<le> ilog2 b" using le by simp
    then have "(2::rat) powi (ilog2 a + 1) \<le> 2 powi (ilog2 b)" by (rule powi2_mono)
    then show ?thesis using fl_binade[OF a assms(3)] fl_binade[OF b assms(3)] by linarith
  qed
qed

lemma fl_of_nat_exact: assumes "n < 2 ^ p" "0 < p" shows "fl p (of_nat n) = of_nat n"
proof (cases "n = 0")
  case True then show ?thesis by (simp add: fl_zero)
next
  case False
  let ?q = "of_nat n :: rat"
  have q: "0 < ?q" using False by simp
  let ?e = "ilog2 ?q"
  have "2 powi ?e \<le> ?q" using ilog2_bounds[OF q] by simp
  also have "?q < 2 powi (int p)" using assms(1) by (simp add: of_nat_less_iff[of n "2 ^ p", where ?'a = rat, simplified])
  finally have "?e < int p" using powi2_mono[of "int p" ?e] by (cases "?e < int p") auto
  then obtain k where k: "?e - int p + 1 = - int k" 
    using nonneg_int_cases[of "int p - 1 - ?e"] by (metis diff_ge_0_iff_ge minus_diff_eq zle_diff1_eq diff_diff_eq2 add.commute diff_add_eq)
  have u: "(2::rat) powi (?e - int p + 1) = 1 / 2 ^ k" unfolding k by (simp add: power_int_minus_divide)
  have "?q / (1 / 2 ^ k) = of_int (int (n * 2 ^ k))" by simp
  then have "rne (?q / (1 / 2 ^ k)) = int (n * 2 ^ k)" using rne_of_int by metis
  then show ?thesis using False u by (simp add: fl_def Let_def)
qed

lemma floor_half_of_int: "\<lfloor>(of_int k :: rat) + 1/2\<rfloor> = k"
  by (rule floor_unique) simp_all

lemma c_round_of_int: "c_round (of_int k) = k"
proof (cases "0 \<le> k")
  case True
  then show ?thesis using floor_half_of_int[of k] by (simp add: c_round_def)
next
  case False
  then show ?thesis using floor_half_of_int[of "- k"] by (simp add: c_round_def)
qed

lemma c_round_mono: assumes "a \<le> b" shows "c_round a \<le> c_round b"
proof -
  consider "0 \<le> a" | "a < 0" "0 \<le> b" | "a < 0" "b < 0" by linarith
  then show ?thesis
  proof cases
    case 1
    then have "0 \<le> b" using assms by simp
    moreover have "\<lfloor>a + 1/2\<rfloor> \<le> \<lfloor>b + 1/2\<rfloor>" using assms by (intro floor_mono) simp
    ultimately show ?thesis using 1 by (simp add: c_round_def)
  next
    case 2
    have "0 \<le> \<lfloor>- a + 1/2\<rfloor>" using 2 by simp
    moreover have "0 \<le> \<lfloor>b + 1/2\<rfloor>" using 2 by simp
    moreover have "c_round a = - \<lfloor>- a + 1/2\<rfloor>" using 2 by (simp add: c_round_def)
    moreover have "c_round b = \<lfloor>b + 1/2\<rfloor>" using 2 by (simp add: c_round_def)
    ultimately show ?thesis by linarith
  next
    case 3
    have "\<lfloor>- b + 1/2\<rfloor> \<le> \<lfloor>- a + 1/2\<rfloor>" using assms by (intro floor_mono) simp
    moreover have "c_round a = - \<lfloor>- a + 1/2\<rfloor>" using 3 by (simp add: c_round_def)
    moreover have "c_round b = - \<lfloor>- b + 1/2\<rfloor>" using 3 by (simp add: c_round_def)
    ultimately show ?thesis by linarith
  qed
qed


lemma fl_one: "0 < p \<Longrightarrow> fl p 1 = 1"
  using fl_of_nat_exact[of 1 p] one_less_power[of "2::nat" p] by simp

lemma fl_nonneg: "0 \<le> q \<Longrightarrow> 0 < p \<Longrightarrow> 0 \<le> fl p q"
  using fl_pos[of q p] by (cases "q = 0") (auto simp: fl_zero less_imp_le)

lemma fl_le_of_nat: assumes "q \<le> of_nat n" "0 \<le> q" "n < 2 ^ p" "0 < p" shows "fl p q \<le> of_nat n"
  using fl_mono_nonneg[OF assms(2,1,4)] fl_of_nat_exact[OF assms(3,4)] by simp

lemma fl24_ratio_le_one: assumes "a \<le> b" "0 < b" shows "fl 24 (fl 24 (of_nat a) / fl 24 (of_nat b)) \<le> 1"
proof -
  have b: "0 < fl 24 (of_nat b)" using assms(2) by (intro fl_pos) simp_all
  have "fl 24 (of_nat a) \<le> fl 24 (of_nat b)" using assms(1) by (intro fl_mono_nonneg) simp_all
  then have "fl 24 (of_nat a) / fl 24 (of_nat b) \<le> 1" using b by simp
  moreover have "0 \<le> fl 24 (of_nat a) / fl 24 (of_nat b)" using b fl_nonneg[of "of_nat a" 24] by simp
  ultimately show ?thesis using fl_le_of_nat[of _ 1 24] by simp
qed

lemma fl24_ratio_nonneg: "0 \<le> fl 24 (fl 24 (of_nat a) / fl 24 (of_nat b))"
  by (intro fl_nonneg divide_nonneg_nonneg) simp_all

lemma scale_error_le: assumes "e < 2 ^ 24" "d < r" shows "scale_error e d r \<le> e"
proof -
  let ?a = "fl 24 (fl 24 (of_nat d) / fl 24 (of_nat r))"
  have r: "0 < r" using assms(2) by simp
  have a1: "?a \<le> 1" using assms(2) r by (intro fl24_ratio_le_one) simp_all
  have a0: "0 \<le> ?a" by (rule fl24_ratio_nonneg)
  have e: "fl 24 (of_nat e) = of_nat e" using assms(1) by (intro fl_of_nat_exact) simp_all
  have "of_nat e * ?a \<le> (of_nat e :: rat)" using a1 by (simp add: mult_left_le)
  moreover have "0 \<le> of_nat e * ?a" using a0 by simp
  ultimately have "fl 24 (of_nat e * ?a) \<le> of_nat e" using assms(1) by (intro fl_le_of_nat) simp_all
  then have "c_round (fl 24 (of_nat e * ?a)) \<le> c_round (of_int (int e))" by (intro c_round_mono) simp
  then have "c_round (fl 24 (of_nat e * ?a)) \<le> int e" by (simp only: c_round_of_int)
  then show ?thesis using r e by (simp add: scale_error_def)
qed


lemma blend_alpha_center: "blend_alpha 0 0 m = 256"
  using c_round_of_int[of 0] by (simp add: blend_alpha_def fl_zero)

lemma fillAlpha_pos_center: "0 < r \<Longrightarrow> fillAlpha_pos 0 r"
  by (simp add: fillAlpha_pos_def sqrt_rn_def fl_zero fl_one)


lemma blend_256: "word_of_int (blend s old 256) = s"
  by (simp add: blend_def drop_bit_eq_div)

subsection \<open>splash_init\<close>

lemma fill_gray_Suc:
  "fill_gray (Suc n) px = (fill_gray n px)[3 * n := 0x7f, 3 * n + 1 := 0x7f, 3 * n + 2 := 0x7f]"
  by (simp add: fill_gray_def)

lemma length_fill_gray: "length (fill_gray n px) = length px"
  by (induction n) (simp_all add: fill_gray_Suc, simp add: fill_gray_def)

lemma fill_gray_nth:
  "k < length px \<Longrightarrow> fill_gray n px ! k = (if k < 3 * n then 0x7f else px ! k)"
proof (induction n)
  case 0
  then show ?case by (simp add: fill_gray_def)
next
  case (Suc n)
  let ?p = "fill_gray n px"
  have len: "length ?p = length px" by (rule length_fill_gray)
  consider "k = 3 * n" | "k = 3 * n + 1" | "k = 3 * n + 2" | "k < 3 * n" | "3 * n + 2 < k"
    by linarith
  then show ?case
  proof cases
    case 1
    then show ?thesis using Suc.prems len by (simp add: fill_gray_Suc)
  next
    case 2
    then show ?thesis using Suc.prems len by (simp add: fill_gray_Suc)
  next
    case 3
    then show ?thesis using Suc.prems len by (simp add: fill_gray_Suc)
  next
    case 4
    then show ?thesis using Suc len by (simp add: fill_gray_Suc)
  next
    case 5
    then show ?thesis using Suc len by (simp add: fill_gray_Suc)
  qed
qed

subsection \<open>worst\<close>

lemma worst_1: "worst err (Suc 0) = (err ! 0, 0)"
  by (simp add: worst_def)

lemma worst_Suc: "0 < n \<Longrightarrow> worst err (Suc n) =
   (case worst err n of (w, wi) \<Rightarrow> if w < err ! n then (err ! n, n) else (w, wi))"
  by (simp add: worst_def case_prod_beta)

lemma worst_spec:
  "0 < n \<Longrightarrow> snd (worst err n) < n \<and> err ! snd (worst err n) = fst (worst err n) \<and>
     (\<forall>k<n. err ! k \<le> fst (worst err n)) \<and> (\<forall>k. k < snd (worst err n) \<longrightarrow> err ! k < fst (worst err n))"
proof (induction n)
  case 0
  then show ?case by simp
next
  case (Suc n)
  show ?case
  proof (cases "n = 0")
    case True
    then show ?thesis by (simp add: worst_1)
  next
    case False
    then have n: "0 < n" by simp
    note IH = Suc.IH[OF n]
    obtain w wi where w: "worst err n = (w, wi)" by (cases "worst err n")
    show ?thesis
    proof (cases "w < err ! n")
      case True
      have "\<forall>k<n. err ! k < err ! n" using IH w True by fastforce
      then show ?thesis using True w n IH by (auto simp: worst_Suc less_Suc_eq intro: less_imp_le)
    next
      case False
      then show ?thesis using w n IH by (auto simp: worst_Suc less_Suc_eq)
    qed
  qed
qed

subsection \<open>foldE\<close>

lemma foldE_inv:
  assumes "foldE f s xs = Inr s'" "P s"
    and "\<And>s x s'. x \<in> set xs \<Longrightarrow> P s \<Longrightarrow> f s x = Inr s' \<Longrightarrow> P s'"
  shows "P s'"
  using assms
proof (induction xs arbitrary: s)
  case Nil
  then show ?case by simp
next
  case (Cons x xs)
  from Cons.prems(1) obtain s1 where s1: "f s x = Inr s1" "foldE f s1 xs = Inr s'"
    by (auto split: sum.splits)
  have "P s1" using Cons.prems(3)[of x s s1] Cons.prems(2) s1 by simp
  then show ?case by (rule Cons.IH[OF s1(2)]) (use Cons.prems(3) in auto)
qed

lemma foldE_append:
  "foldE f s (xs @ ys) = (case foldE f s xs of Inl e \<Rightarrow> Inl e | Inr s' \<Rightarrow> foldE f s' ys)"
  by (induction xs arbitrary: s) (auto split: sum.splits)

lemma foldE_ok:
  assumes "P s"
    and "\<And>s x. x \<in> set xs \<Longrightarrow> P s \<Longrightarrow> \<exists>s'. f s x = Inr s' \<and> P s'"
  shows "\<exists>s'. foldE f s xs = Inr s' \<and> P s'"
  using assms
proof (induction xs arbitrary: s)
  case Nil
  then show ?case by simp
next
  case (Cons x xs)
  obtain s1 where s1: "f s x = Inr s1" "P s1" using Cons.prems(2)[of x s] Cons.prems(1) by auto
  have "\<exists>s'. foldE f s1 xs = Inr s' \<and> P s'" using Cons.IH[OF s1(2)] Cons.prems(2) by simp
  then show ?case using s1 by simp
qed

subsection \<open>The range of the splash\<close>

lemma expand_min_spec:
  "expand_min err n m \<le> m \<and> m - expand_min err n m \<le> n \<and>
   (\<forall>k. expand_min err n m \<le> k \<and> k < m \<longrightarrow> err ! k \<noteq> 0)"
proof (induction err n m rule: expand_min.induct)
  case (1 err m)
  then show ?case by simp
next
  case (2 err n m)
  show ?case
  proof (cases "m = 0 \<or> err ! (m - 1) = 0")
    case True
    then show ?thesis by auto
  next
    case False
    then have IH: "expand_min err n (m - 1) \<le> m - 1 \<and> m - 1 - expand_min err n (m - 1) \<le> n \<and>
      (\<forall>k. expand_min err n (m - 1) \<le> k \<and> k < m - 1 \<longrightarrow> err ! k \<noteq> 0)" using 2 by simp
    have "\<And>k. expand_min err n (m - 1) \<le> k \<Longrightarrow> k < m \<Longrightarrow> err ! k \<noteq> 0"
    proof -
      fix k assume "expand_min err n (m - 1) \<le> k" "k < m"
      then show "err ! k \<noteq> 0" using IH False by (cases "k = m - 1") auto
    qed
    then show ?thesis using False IH by auto
  qed
qed

lemma expand_max_spec:
  "m \<le> expand_max err len n m \<and> expand_max err len n m - m \<le> n \<and>
   (m < len \<longrightarrow> expand_max err len n m < len) \<and>
   (\<forall>k. m < k \<and> k \<le> expand_max err len n m \<longrightarrow> err ! k \<noteq> 0)"
proof (induction err len n m rule: expand_max.induct)
  case (1 err len m)
  then show ?case by simp
next
  case (2 err len n m)
  show ?case
  proof (cases "int len - 1 \<le> int m \<or> err ! (m + 1) = 0")
    case True
    then show ?thesis by auto
  next
    case False
    then have IH: "m + 1 \<le> expand_max err len n (m + 1) \<and> expand_max err len n (m + 1) - (m + 1) \<le> n \<and>
      (m + 1 < len \<longrightarrow> expand_max err len n (m + 1) < len) \<and>
      (\<forall>k. m + 1 < k \<and> k \<le> expand_max err len n (m + 1) \<longrightarrow> err ! k \<noteq> 0)" using 2 by simp
    have lt: "m + 1 < len" using False by linarith
    have "\<And>k. m < k \<Longrightarrow> k \<le> expand_max err len n (m + 1) \<Longrightarrow> err ! k \<noteq> 0"
    proof -
      fix k assume "m < k" "k \<le> expand_max err len n (m + 1)"
      then show "err ! k \<noteq> 0" using IH False by (cases "k = m + 1") auto
    qed
    then show ?thesis using False IH lt by auto
  qed
qed

subsection \<open>rebalance\<close>

lemma length_rebalance_step [simp]: "length (rebalance_step r i err ii) = length err"
  by (simp add: rebalance_step_def Let_def)

lemma length_foldl_rebalance [simp]: "length (foldl (rebalance_step r i) err xs) = length err"
  by (induction xs arbitrary: err) simp_all

lemma length_rebalance [simp]: "length (rebalance r i lo hi err) = length err"
  by (simp add: rebalance_def)

lemma foldl_rebalance_nth:
  "hi \<le> length err \<Longrightarrow> k < length err \<Longrightarrow>
   foldl (rebalance_step r i) err [lo..<hi] ! k =
     (if lo \<le> k \<and> k < hi then scaled r i (err ! k) k else err ! k)"
proof (induction hi arbitrary: k)
  case 0
  then show ?case by simp
next
  case (Suc hi)
  let ?L = "foldl (rebalance_step r i) err [lo..<hi]"
  have IH: "\<And>k. k < length err \<Longrightarrow> ?L ! k = (if lo \<le> k \<and> k < hi then scaled r i (err ! k) k else err ! k)"
    using Suc by simp
  show ?case
  proof (cases "lo \<le> hi")
    case True
    have hi: "hi < length err" using Suc.prems by simp
    have "foldl (rebalance_step r i) err [lo..<Suc hi] = rebalance_step r i ?L hi"
      using True by simp
    also have "\<dots> = ?L[hi := scaled r i (err ! hi) hi]"
      using IH[OF hi] by (simp add: rebalance_step_def scaled_def Let_def)
    finally show ?thesis using IH[OF Suc.prems(2)] Suc.prems True hi
      by (auto simp: nth_list_update)
  next
    case False
    then show ?thesis by simp
  qed
qed

lemma rebalance_nth:
  "hi < length err \<Longrightarrow> k < length err \<Longrightarrow>
   rebalance r i lo hi err ! k =
     (if k = i then 0 else if lo \<le> k \<and> k \<le> hi then scaled r i (err ! k) k else err ! k)"
proof -
  assume a: "hi < length err" "k < length err"
  have "foldl (rebalance_step r i) err [lo..<Suc hi] ! k =
      (if lo \<le> k \<and> k < Suc hi then scaled r i (err ! k) k else err ! k)"
    using a by (intro foldl_rebalance_nth) simp_all
  then show ?thesis using a unfolding rebalance_def
    by (auto simp del: upt_Suc simp add: nth_list_update)
qed

subsection \<open>What the scan leaves alone\<close>

lemma scan_rel_refl [simp]: "scan_rel c c"
  by (simp add: scan_rel_def)

lemma scan_rel_trans: "scan_rel a b \<Longrightarrow> scan_rel b c \<Longrightarrow> scan_rel a c"
  by (simp add: scan_rel_def)

lemma read_sample_rel:
  "read_sample ctx pic ed i j = Inr (src, ctx') \<Longrightarrow>
     scan_rel ctx ctx' \<and> pixels ctx' = pixels ctx \<and> pos ctx' = pos ctx + 3 \<and>
     pos ctx + 3 \<le> length (data ctx)"
  by (auto simp: read_sample_def scan_rel_def Let_def split: if_splits)

lemma splat_pixel_rel:
  "splat_pixel W r m i j src ctx c = Inr ctx' \<Longrightarrow>
     scan_rel ctx ctx' \<and> data ctx' = data ctx \<and> pos ctx' = pos ctx \<and> numPixels ctx' = numPixels ctx"
  by (auto simp: splat_pixel_def scan_rel_def Let_def split: if_splits prod.splits)

lemma splat_fold_rel:
  assumes "foldE (splat_pixel W r m i j src) ctx cells = Inr ctx'"
  shows "scan_rel ctx ctx' \<and> data ctx' = data ctx \<and> pos ctx' = pos ctx \<and> numPixels ctx' = numPixels ctx"
  by (rule foldE_inv[OF assms, where P = "\<lambda>c. scan_rel ctx c \<and> data c = data ctx \<and> pos c = pos ctx \<and> numPixels c = numPixels ctx"])
     (auto dest!: splat_pixel_rel intro: scan_rel_trans)

lemma cross_col_rel:
  assumes "cross_col W H pic r ed i lo hi m ctx j = Inr ctx'"
  shows "scan_rel ctx ctx' \<and> (if yError ctx ! j = 0 then pos ctx' = pos ctx + 3 else ctx' = ctx)"
proof (cases "yError ctx ! j = 0")
  case True
  then obtain src c1 where rs: "read_sample ctx pic ed i j = Inr (src, c1)"
    and f: "foldE (splat_pixel W r m i j src) c1
              (cells_col lo hi (expand_min (yError c1) (r - 1) j) (expand_max (yError c1) H (r - 1) j)) = Inr ctx'"
    using assms by (auto simp: cross_col_def Let_def split: sum.splits)
  show ?thesis using read_sample_rel[OF rs] splat_fold_rel[OF f] True
    by (auto intro: scan_rel_trans)
next
  case False
  then show ?thesis using assms by (simp add: cross_col_def)
qed

lemma cross_row_rel:
  assumes "cross_row W H pic r ed j lo hi m ctx i = Inr ctx'"
  shows "scan_rel ctx ctx' \<and> (if xError ctx ! i = 0 then pos ctx' = pos ctx + 3 else ctx' = ctx)"
proof (cases "xError ctx ! i = 0")
  case True
  then obtain src c1 where rs: "read_sample ctx pic ed i j = Inr (src, c1)"
    and f: "foldE (splat_pixel W r m i j src) c1
              (cells_row (expand_min (xError c1) (r - 1) i) (expand_max (xError c1) W (r - 1) i) lo hi) = Inr ctx'"
    using assms by (auto simp: cross_row_def Let_def split: sum.splits)
  show ?thesis using read_sample_rel[OF rs] splat_fold_rel[OF f] True
    by (auto intro: scan_rel_trans)
next
  case False
  then show ?thesis using assms by (simp add: cross_row_def)
qed

lemma scan_col_rel:
  assumes "foldE (cross_col W H pic r ed i lo hi m) ctx js = Inr ctx'"
  shows "scan_rel ctx ctx'"
  by (rule foldE_inv[OF assms, where P = "scan_rel ctx"]) (auto dest!: cross_col_rel intro: scan_rel_trans)

lemma scan_row_rel:
  assumes "foldE (cross_row W H pic r ed j lo hi m) ctx is = Inr ctx'"
  shows "scan_rel ctx ctx'"
  by (rule foldE_inv[OF assms, where P = "scan_rel ctx"]) (auto dest!: cross_row_rel intro: scan_rel_trans)

subsection \<open>The shape of an iteration\<close>

lemma worst_zero_iff: "0 < n \<Longrightarrow> fst (worst err n) = 0 \<longleftrightarrow> (\<forall>k<n. err ! k = 0)"
  using worst_spec[of n err] by (metis le_zero_eq)

lemma updateLines_cases:
  assumes "updateLines ctx W H pic r ed = Inr (b, ctx')"
  shows "(\<not> b \<and> ctx' = ctx \<and> fst (worst (xError ctx) W) = 0 \<and> fst (worst (yError ctx) H) = 0) \<or>
         (b \<and> fst (worst (yError ctx) H) < fst (worst (xError ctx) W) \<and>
            scan_rel (ctx\<lparr>xError := rebalance r (snd (worst (xError ctx) W))
                 (expand_min (xError ctx) (r - 1) (snd (worst (xError ctx) W)))
                 (expand_max (xError ctx) W (r - 1) (snd (worst (xError ctx) W))) (xError ctx)\<rparr>) ctx') \<or>
         (b \<and> fst (worst (xError ctx) W) \<le> fst (worst (yError ctx) H) \<and> 0 < fst (worst (yError ctx) H) \<and>
            scan_rel (ctx\<lparr>yError := rebalance r (snd (worst (yError ctx) H))
                 (expand_min (yError ctx) (r - 1) (snd (worst (yError ctx) H)))
                 (expand_max (yError ctx) H (r - 1) (snd (worst (yError ctx) H))) (yError ctx)\<rparr>) ctx')"
proof -
  obtain wx xi where wx: "worst (xError ctx) W = (wx, xi)" by (cases "worst (xError ctx) W")
  obtain wy yj where wy: "worst (yError ctx) H = (wy, yj)" by (cases "worst (yError ctx) H")
  consider "wx + wy = 0" | "wx + wy \<noteq> 0" "wy < wx" | "wx + wy \<noteq> 0" "\<not> wy < wx" by blast
  then show ?thesis
  proof cases
    case 1
    then show ?thesis using assms wx wy by (simp add: updateLines_def)
  next
    case 2
    then show ?thesis using assms wx wy
      by (auto simp: updateLines_def Let_def split: sum.splits dest!: scan_col_rel)
  next
    case 3
    then show ?thesis using assms wx wy
      by (auto simp: updateLines_def Let_def split: sum.splits dest!: scan_row_rel)
  qed
qed

subsection \<open>Step 4 on a ruler\<close>

lemma scaled_props:
  assumes "e < 2 ^ 24" "0 < e" "k \<noteq> i" "(if i \<le> k then k - i else i - k) < r"
  shows "0 < scaled r i e k \<and> scaled r i e k \<le> e"
  using assms scale_error_le[of e "if i \<le> k then k - i else i - k" r]
  by (auto simp: scaled_def Let_def)

lemma rebalance_props:
  fixes r :: nat
  assumes i: "i < length xs" and b: "list_all (\<lambda>e. e < 2 ^ 24) xs"
  defines "lo \<equiv> expand_min xs (r - 1) i" and "hi \<equiv> expand_max xs (length xs) (r - 1) i"
  defines "xs' \<equiv> rebalance r i lo hi xs"
  shows "xs' ! i = 0" and "\<And>k. k < length xs \<Longrightarrow> k \<noteq> i \<Longrightarrow> xs' ! k \<le> xs ! k \<and> (xs' ! k = 0 \<longleftrightarrow> xs ! k = 0)"
proof -
  note mn = expand_min_spec[of xs "r - 1" i] and mx = expand_max_spec[of i xs "length xs" "r - 1"]
  have hi: "hi < length xs" using mx i by (simp add: hi_def)
  show "xs' ! i = 0" using hi i by (simp add: xs'_def rebalance_nth)
  fix k assume k: "k < length xs" "k \<noteq> i"
  show "xs' ! k \<le> xs ! k \<and> (xs' ! k = 0 \<longleftrightarrow> xs ! k = 0)"
  proof (cases "lo \<le> k \<and> k \<le> hi")
    case True
    have nz: "xs ! k \<noteq> 0" using True k mn mx by (cases "k < i") (auto simp: lo_def hi_def)
    have "i - lo \<le> r - 1" "hi - i \<le> r - 1" using mn mx by (simp_all add: lo_def hi_def)
    then have d: "(if i \<le> k then k - i else i - k) < r" using True k(2) by (cases "i \<le> k") (simp; linarith)+
    have e: "xs ! k < 2 ^ 24" using b k by (simp add: list_all_length)
    have "xs' ! k = scaled r i (xs ! k) k" using True hi k by (simp add: xs'_def rebalance_nth)
    then show ?thesis using scaled_props[OF e _ k(2) d] nz by auto
  next
    case False
    then have "xs' ! k = xs ! k" using hi k by (auto simp: xs'_def rebalance_nth)
    then show ?thesis by simp
  qed
qed

lemma foldE_skip: "(\<And>x. x \<in> set xs \<Longrightarrow> f s x = Inr s) \<Longrightarrow> foldE f s xs = Inr s"
  by (induction xs) simp_all

lemma ctx_ok_pivots:
  assumes "ctx_ok W H ctx"
  shows "snd (worst (xError ctx) W) < length (xError ctx)" "snd (worst (yError ctx) H) < length (yError ctx)"
    "xError ctx ! snd (worst (xError ctx) W) = fst (worst (xError ctx) W)"
    "yError ctx ! snd (worst (yError ctx) H) = fst (worst (yError ctx) H)"
  using assms worst_spec[of W "xError ctx"] worst_spec[of H "yError ctx"]
  by (simp_all add: ctx_ok_def)

text \<open>The rulers after an iteration, entry by entry.\<close>

lemma updateLines_rulers:
  assumes ok: "ctx_ok W H ctx" and res: "updateLines ctx W H pic r ed = Inr (b, ctx')"
  defines "wx \<equiv> fst (worst (xError ctx) W)" and "xi \<equiv> snd (worst (xError ctx) W)"
  defines "wy \<equiv> fst (worst (yError ctx) H)" and "yj \<equiv> snd (worst (yError ctx) H)"
  shows "length (xError ctx') = W" "length (yError ctx') = H" "length (pixels ctx') = length (pixels ctx)"
    and "\<not> b \<Longrightarrow> ctx' = ctx \<and> wx = 0 \<and> wy = 0"
    and "b \<Longrightarrow> 0 < wx \<or> 0 < wy"
    and "b \<Longrightarrow> wy < wx \<Longrightarrow> yError ctx' = yError ctx \<and> xError ctx' ! xi = 0 \<and>
           (\<forall>k<W. k \<noteq> xi \<longrightarrow> xError ctx' ! k \<le> xError ctx ! k \<and>
                      (xError ctx' ! k = 0 \<longleftrightarrow> xError ctx ! k = 0))"
    and "b \<Longrightarrow> wx \<le> wy \<Longrightarrow> xError ctx' = xError ctx \<and> yError ctx' ! yj = 0 \<and>
           (\<forall>k<H. k \<noteq> yj \<longrightarrow> yError ctx' ! k \<le> yError ctx ! k \<and>
                      (yError ctx' ! k = 0 \<longleftrightarrow> yError ctx ! k = 0))"
proof -
  note c = updateLines_cases[OF res, folded wx_def xi_def wy_def yj_def]
  note p = ctx_ok_pivots[OF ok, folded wx_def xi_def wy_def yj_def]
  have lx: "length (xError ctx) = W" and ly: "length (yError ctx) = H"
    and bx: "list_all (\<lambda>e. e < 2 ^ 24) (xError ctx)" and by': "list_all (\<lambda>e. e < 2 ^ 24) (yError ctx)"
    using ok by (simp_all add: ctx_ok_def)
  note rx = rebalance_props[OF p(1) bx, where r = r, unfolded lx]
  note ry = rebalance_props[OF p(2) by', where r = r, unfolded ly]
  show "length (xError ctx') = W" "length (yError ctx') = H" "length (pixels ctx') = length (pixels ctx)"
    using c lx ly by (auto simp: scan_rel_def)
  show "\<not> b \<Longrightarrow> ctx' = ctx \<and> wx = 0 \<and> wy = 0" using c by auto
  show "b \<Longrightarrow> 0 < wx \<or> 0 < wy" using c by auto
  show "b \<Longrightarrow> wy < wx \<Longrightarrow> yError ctx' = yError ctx \<and> xError ctx' ! xi = 0 \<and>
           (\<forall>k<W. k \<noteq> xi \<longrightarrow> xError ctx' ! k \<le> xError ctx ! k \<and>
                      (xError ctx' ! k = 0 \<longleftrightarrow> xError ctx ! k = 0))"
    using c rx by (auto simp: scan_rel_def)
  show "b \<Longrightarrow> wx \<le> wy \<Longrightarrow> xError ctx' = xError ctx \<and> yError ctx' ! yj = 0 \<and>
           (\<forall>k<H. k \<noteq> yj \<longrightarrow> yError ctx' ! k \<le> yError ctx ! k \<and>
                      (yError ctx' ! k = 0 \<longleftrightarrow> yError ctx ! k = 0))"
    using c ry by (auto simp: scan_rel_def)
qed

lemma updateLines_mono:
  assumes ok: "ctx_ok W H ctx" and res: "updateLines ctx W H pic r ed = Inr (b, ctx')"
  shows "\<And>k. k < W \<Longrightarrow> xError ctx' ! k \<le> xError ctx ! k \<and> (xError ctx ! k = 0 \<longrightarrow> xError ctx' ! k = 0)"
    and "\<And>k. k < H \<Longrightarrow> yError ctx' ! k \<le> yError ctx ! k \<and> (yError ctx ! k = 0 \<longrightarrow> yError ctx' ! k = 0)"
proof -
  note u = updateLines_rulers[OF ok res]
  let ?col = "fst (worst (yError ctx) H) < fst (worst (xError ctx) W)"
  consider "\<not> b" | "b" "?col" | "b" "\<not> ?col" by blast
  then have "(\<forall>k<W. xError ctx' ! k \<le> xError ctx ! k \<and> (xError ctx ! k = 0 \<longrightarrow> xError ctx' ! k = 0)) \<and>
             (\<forall>k<H. yError ctx' ! k \<le> yError ctx ! k \<and> (yError ctx ! k = 0 \<longrightarrow> yError ctx' ! k = 0))"
  proof cases
    case 1
    then show ?thesis using u(4) by simp
  next
    case 2
    note f = u(6)[OF 2]
    have "\<And>k. k < W \<Longrightarrow> xError ctx' ! k \<le> xError ctx ! k \<and> (xError ctx ! k = 0 \<longrightarrow> xError ctx' ! k = 0)"
    proof -
      fix k assume "k < W"
      then show "xError ctx' ! k \<le> xError ctx ! k \<and> (xError ctx ! k = 0 \<longrightarrow> xError ctx' ! k = 0)"
        using f by (cases "k = snd (worst (xError ctx) W)") auto
    qed
    then show ?thesis using f by simp
  next
    case 3
    then have le: "fst (worst (xError ctx) W) \<le> fst (worst (yError ctx) H)" by simp
    note f = u(7)[OF 3(1) le]
    have "\<And>k. k < H \<Longrightarrow> yError ctx' ! k \<le> yError ctx ! k \<and> (yError ctx ! k = 0 \<longrightarrow> yError ctx' ! k = 0)"
    proof -
      fix k assume "k < H"
      then show "yError ctx' ! k \<le> yError ctx ! k \<and> (yError ctx ! k = 0 \<longrightarrow> yError ctx' ! k = 0)"
        using f by (cases "k = snd (worst (yError ctx) H)") auto
    qed
    then show ?thesis using f by simp
  qed
  then show "\<And>k. k < W \<Longrightarrow> xError ctx' ! k \<le> xError ctx ! k \<and> (xError ctx ! k = 0 \<longrightarrow> xError ctx' ! k = 0)"
    and "\<And>k. k < H \<Longrightarrow> yError ctx' ! k \<le> yError ctx ! k \<and> (yError ctx ! k = 0 \<longrightarrow> yError ctx' ! k = 0)"
    by simp_all
qed

lemma updateLines_ctx_ok:
  assumes ok: "ctx_ok W H ctx" and res: "updateLines ctx W H pic r ed = Inr (b, ctx')"
  shows "ctx_ok W H ctx'"
proof -
  note u = updateLines_rulers[OF ok res] and m = updateLines_mono[OF ok res]
  have bx: "\<And>k. k < W \<Longrightarrow> xError ctx ! k < 2 ^ 24" and by': "\<And>k. k < H \<Longrightarrow> yError ctx ! k < 2 ^ 24"
    and W: "0 < W" "0 < H" "length (pixels ctx) = W * H * 4"
    using ok by (simp_all add: ctx_ok_def list_all_length)
  have "\<And>k. k < W \<Longrightarrow> xError ctx' ! k < 2 ^ 24" using m(1) bx by (meson le_less_trans)
  moreover have "\<And>k. k < H \<Longrightarrow> yError ctx' ! k < 2 ^ 24" using m(2) by' by (meson le_less_trans)
  ultimately show ?thesis using u(1-3) W by (simp add: ctx_ok_def list_all_length)
qed

lemma ex_ctx_ok: "ctx_ok 3 1 ex_ctx"
  by (simp add: ctx_ok_def ex_ctx_def)

lemma ex_ctx_step: "updateLines ex_ctx 3 1 ex_pic 5 False = Inr (True, ex_ctx\<lparr>xError := [20, 0, 10]\<rparr>)"
  by code_simp

text \<open>
  Claim C5. One iteration of the engine on a context with positive dimensions and radius
  never increases a ruler entry and never turns a zero entry into a non-zero one. When
  it does work, the entry of the pivot (the worst column if \<open>worstX > worstY\<close>, the
  worst row otherwise) is zero afterwards, and every other entry that was non-zero
  before is at least 1 afterwards: inside the pivot range a rescaled value of zero is
  forced to 1, outside it nothing changes.
\<close>

theorem ruler_monotone_pivot_exact:
  assumes "ctx_ok W H ctx" and "0 < r" and "updateLines ctx W H pic r ed = Inr (b, ctx')"
  shows "(\<forall>k<W. xError ctx' ! k \<le> xError ctx ! k) \<and> (\<forall>k<H. yError ctx' ! k \<le> yError ctx ! k) \<and>
         (\<forall>k<W. xError ctx ! k = 0 \<longrightarrow> xError ctx' ! k = 0) \<and>
         (\<forall>k<H. yError ctx ! k = 0 \<longrightarrow> yError ctx' ! k = 0) \<and>
         (b \<longrightarrow>
           (if fst (worst (yError ctx) H) < fst (worst (xError ctx) W)
            then xError ctx' ! snd (worst (xError ctx) W) = 0 \<and>
                 (\<forall>k<W. k \<noteq> snd (worst (xError ctx) W) \<longrightarrow> xError ctx ! k \<noteq> 0 \<longrightarrow> 1 \<le> xError ctx' ! k)
            else yError ctx' ! snd (worst (yError ctx) H) = 0 \<and>
                 (\<forall>k<H. k \<noteq> snd (worst (yError ctx) H) \<longrightarrow> yError ctx ! k \<noteq> 0 \<longrightarrow> 1 \<le> yError ctx' ! k)))"
proof -
  note m = updateLines_mono[OF assms(1,3)] and u = updateLines_rulers[OF assms(1,3)]
  have mono: "(\<forall>k<W. xError ctx' ! k \<le> xError ctx ! k) \<and> (\<forall>k<H. yError ctx' ! k \<le> yError ctx ! k) \<and>
         (\<forall>k<W. xError ctx ! k = 0 \<longrightarrow> xError ctx' ! k = 0) \<and>
         (\<forall>k<H. yError ctx ! k = 0 \<longrightarrow> yError ctx' ! k = 0)"
    using m by simp
  have piv: "b \<longrightarrow>
           (if fst (worst (yError ctx) H) < fst (worst (xError ctx) W)
            then xError ctx' ! snd (worst (xError ctx) W) = 0 \<and>
                 (\<forall>k<W. k \<noteq> snd (worst (xError ctx) W) \<longrightarrow> xError ctx ! k \<noteq> 0 \<longrightarrow> 1 \<le> xError ctx' ! k)
            else yError ctx' ! snd (worst (yError ctx) H) = 0 \<and>
                 (\<forall>k<H. k \<noteq> snd (worst (yError ctx) H) \<longrightarrow> yError ctx ! k \<noteq> 0 \<longrightarrow> 1 \<le> yError ctx' ! k))"
  proof (intro impI)
    assume b: b
    show "if fst (worst (yError ctx) H) < fst (worst (xError ctx) W)
            then xError ctx' ! snd (worst (xError ctx) W) = 0 \<and>
                 (\<forall>k<W. k \<noteq> snd (worst (xError ctx) W) \<longrightarrow> xError ctx ! k \<noteq> 0 \<longrightarrow> 1 \<le> xError ctx' ! k)
            else yError ctx' ! snd (worst (yError ctx) H) = 0 \<and>
                 (\<forall>k<H. k \<noteq> snd (worst (yError ctx) H) \<longrightarrow> yError ctx ! k \<noteq> 0 \<longrightarrow> 1 \<le> yError ctx' ! k)"
    proof (cases "fst (worst (yError ctx) H) < fst (worst (xError ctx) W)")
      case True
      then show ?thesis using u(6)[OF b True] by (auto simp: Suc_le_eq)
    next
      case False
      then have le: "fst (worst (xError ctx) W) \<le> fst (worst (yError ctx) H)" by simp
      show ?thesis using u(7)[OF b le] False by (auto simp: Suc_le_eq)
    qed
  qed
  show ?thesis using mono piv by blast
qed

theorem ruler_monotone_pivot_exact_witness:
  "ctx_ok 3 1 ex_ctx \<and> (0::nat) < 5 \<and>
   updateLines ex_ctx 3 1 ex_pic 5 False = Inr (True, ex_ctx\<lparr>xError := [20, 0, 10]\<rparr>) \<and>
   xError (ex_ctx\<lparr>xError := [20, 0, 10]\<rparr>) ! snd (worst (xError ex_ctx) 3) = 0 \<and>
   snd (worst (xError ex_ctx) 3) = 1 \<and>
   xError (ex_ctx\<lparr>xError := [20, 0, 10]\<rparr>) ! 0 \<le> xError ex_ctx ! 0 \<and>
   1 \<le> xError (ex_ctx\<lparr>xError := [20, 0, 10]\<rparr>) ! 2"
proof -
  have r: "(0::nat) < 5" by simp
  have w: "worst (xError ex_ctx) 3 = (200, 1)" "worst (yError ex_ctx) 1 = (7, 0)"
    by (simp_all add: worst_def ex_ctx_def upt_conv_Cons)
  note t = ruler_monotone_pivot_exact[OF ex_ctx_ok r ex_ctx_step]
  show ?thesis using t ex_ctx_ok ex_ctx_step w by (simp add: ex_ctx_def)
qed

text \<open>
  Claim C7. In an iteration that does work, each ruler's maximum is taken at its first
  occurrence: the selected index holds the largest entry and every earlier entry is
  strictly smaller. The iteration is column-major (the column ruler is rebalanced, its
  pivot entry becomes zero, the row ruler is untouched) exactly when the column maximum
  is strictly greater than the row maximum; otherwise, ties included, it is row-major
  (the row ruler is rebalanced and the column ruler is untouched).
\<close>

theorem pivot_selection_tie_break:
  assumes "ctx_ok W H ctx" and "updateLines ctx W H pic r ed = Inr (True, ctx')"
  shows "\<exists>xi yj. worst (xError ctx) W = (xError ctx ! xi, xi) \<and> worst (yError ctx) H = (yError ctx ! yj, yj) \<and>
           xi < W \<and> yj < H \<and>
           (\<forall>k<W. xError ctx ! k \<le> xError ctx ! xi) \<and> (\<forall>k<xi. xError ctx ! k < xError ctx ! xi) \<and>
           (\<forall>k<H. yError ctx ! k \<le> yError ctx ! yj) \<and> (\<forall>k<yj. yError ctx ! k < yError ctx ! yj) \<and>
           (if yError ctx ! yj < xError ctx ! xi
            then 0 < xError ctx ! xi \<and> xError ctx' ! xi = 0 \<and> yError ctx' = yError ctx
            else 0 < yError ctx ! yj \<and> yError ctx' ! yj = 0 \<and> xError ctx' = xError ctx)"
proof -
  obtain wx xi where wx: "worst (xError ctx) W = (wx, xi)" by (cases "worst (xError ctx) W")
  obtain wy yj where wy: "worst (yError ctx) H = (wy, yj)" by (cases "worst (yError ctx) H")
  have W: "0 < W" "0 < H" using assms(1) by (simp_all add: ctx_ok_def)
  have sx: "xi < W" "xError ctx ! xi = wx" "\<forall>k<W. xError ctx ! k \<le> wx" "\<forall>k<xi. xError ctx ! k < wx"
    using worst_spec[OF W(1), of "xError ctx"] wx by simp_all
  have sy: "yj < H" "yError ctx ! yj = wy" "\<forall>k<H. yError ctx ! k \<le> wy" "\<forall>k<yj. yError ctx ! k < wy"
    using worst_spec[OF W(2), of "yError ctx"] wy by simp_all
  note u = updateLines_rulers[OF assms, unfolded wx wy fst_conv snd_conv]
  have ax: "if wy < wx
            then 0 < wx \<and> xError ctx' ! xi = 0 \<and> yError ctx' = yError ctx
            else 0 < wy \<and> yError ctx' ! yj = 0 \<and> xError ctx' = xError ctx"
  proof (cases "wy < wx")
    case True
    then show ?thesis using u(6) by simp
  next
    case False
    then have "wx \<le> wy" by simp
    then show ?thesis using u(5,7) False by auto
  qed
  have "worst (xError ctx) W = (xError ctx ! xi, xi) \<and> worst (yError ctx) H = (yError ctx ! yj, yj) \<and>
           xi < W \<and> yj < H \<and>
           (\<forall>k<W. xError ctx ! k \<le> xError ctx ! xi) \<and> (\<forall>k<xi. xError ctx ! k < xError ctx ! xi) \<and>
           (\<forall>k<H. yError ctx ! k \<le> yError ctx ! yj) \<and> (\<forall>k<yj. yError ctx ! k < yError ctx ! yj) \<and>
           (if yError ctx ! yj < xError ctx ! xi
            then 0 < xError ctx ! xi \<and> xError ctx' ! xi = 0 \<and> yError ctx' = yError ctx
            else 0 < yError ctx ! yj \<and> yError ctx' ! yj = 0 \<and> xError ctx' = xError ctx)"
    using wx wy sx sy ax by simp
  then show ?thesis by blast
qed

theorem pivot_selection_tie_break_witness:
  "ctx_ok 3 1 ex_ctx \<and>
   updateLines ex_ctx 3 1 ex_pic 5 False = Inr (True, ex_ctx\<lparr>xError := [20, 0, 10]\<rparr>) \<and>
   (\<exists>xi yj. worst (xError ex_ctx) 3 = (xError ex_ctx ! xi, xi) \<and>
        worst (yError ex_ctx) 1 = (yError ex_ctx ! yj, yj) \<and> xi < 3 \<and> yj < 1 \<and>
        (\<forall>k<3. xError ex_ctx ! k \<le> xError ex_ctx ! xi) \<and>
        (\<forall>k<xi. xError ex_ctx ! k < xError ex_ctx ! xi) \<and>
        (\<forall>k<1. yError ex_ctx ! k \<le> yError ex_ctx ! yj) \<and>
        (\<forall>k<yj. yError ex_ctx ! k < yError ex_ctx ! yj) \<and>
        (if yError ex_ctx ! yj < xError ex_ctx ! xi
         then 0 < xError ex_ctx ! xi \<and> xError (ex_ctx\<lparr>xError := [20, 0, 10]\<rparr>) ! xi = 0 \<and>
              yError (ex_ctx\<lparr>xError := [20, 0, 10]\<rparr>) = yError ex_ctx
         else 0 < yError ex_ctx ! yj \<and> yError (ex_ctx\<lparr>xError := [20, 0, 10]\<rparr>) ! yj = 0 \<and>
              xError (ex_ctx\<lparr>xError := [20, 0, 10]\<rparr>) = xError ex_ctx))"
  by (rule conjI[OF ex_ctx_ok conjI[OF ex_ctx_step
        pivot_selection_tie_break[OF ex_ctx_ok ex_ctx_step]]])

subsection \<open>Canvas coordinates\<close>

lemma cells_col_iff:
  "(ii, jj) \<in> set (cells_col minI maxI minJ maxJ) \<longleftrightarrow> minI \<le> ii \<and> ii \<le> maxI \<and> minJ \<le> jj \<and> jj \<le> maxJ"
  by (force simp del: upt_Suc simp add: cells_col_def image_iff)

lemma cells_row_iff:
  "(ii, jj) \<in> set (cells_row minI maxI minJ maxJ) \<longleftrightarrow> minI \<le> ii \<and> ii \<le> maxI \<and> minJ \<le> jj \<and> jj \<le> maxJ"
  by (force simp del: upt_Suc simp add: cells_row_def image_iff)

lemma pixel_index_bound:
  fixes ii jj W H :: nat
  assumes "ii < W" "jj < H"
  shows "(jj * W + ii) * 4 + 3 \<le> W * H * 4"
proof -
  have "jj * W + ii < Suc jj * W" using assms(1) by simp
  also have "Suc jj * W \<le> H * W" using assms(2) by (intro mult_le_mono1) simp
  finally have "jj * W + ii < W * H" by (simp add: mult.commute)
  then show ?thesis by simp
qed

lemma expand_in_bounds:
  assumes "i < n"
  shows "expand_min err k i \<le> expand_max err n k i" "expand_max err n k i < n"
        "expand_min err k i \<le> i" "i \<le> expand_max err n k i"
  using expand_min_spec[of err k i] expand_max_spec[of i err n k] assms by auto

lemma foldE_never:
  assumes "P s"
    and "\<And>s x. x \<in> set xs \<Longrightarrow> P s \<Longrightarrow> f s x \<noteq> Inl e \<and> (\<forall>s'. f s x = Inr s' \<longrightarrow> P s')"
  shows "foldE f s xs \<noteq> Inl e"
  using assms
proof (induction xs arbitrary: s)
  case Nil
  then show ?case by simp
next
  case (Cons x xs)
  have st: "f s x \<noteq> Inl e" "\<And>s'. f s x = Inr s' \<Longrightarrow> P s'" using Cons.prems(2)[of x s] Cons.prems(1) by auto
  show ?case
  proof (cases "f s x")
    case (Inl e')
    then show ?thesis using st(1) by simp
  next
    case (Inr s')
    have "foldE f s' xs \<noteq> Inl e" by (rule Cons.IH[OF st(2)[OF Inr]]) (use Cons.prems(2) in auto)
    then show ?thesis using Inr by simp
  qed
qed

lemma splat_pixel_no_canvas_fault:
  assumes "length (pixels s) = W * H * 4" "ii < W" "jj < H"
  shows "splat_pixel W r m i j src s (ii, jj) \<noteq> Inl CanvasOutOfBounds"
  using pixel_index_bound[OF assms(2,3)] assms(1)
  by (auto simp: splat_pixel_def Let_def split: prod.splits)

lemma splat_fold_no_canvas_fault:
  assumes "length (pixels s) = W * H * 4" "\<forall>(ii, jj) \<in> set cells. ii < W \<and> jj < H"
  shows "foldE (splat_pixel W r m i j src) s cells \<noteq> Inl CanvasOutOfBounds"
proof (rule foldE_never[where P = "\<lambda>c. length (pixels c) = W * H * 4"])
  show "length (pixels s) = W * H * 4" by fact
next
  fix c :: SplashContext and x assume x: "x \<in> set cells" and c: "length (pixels c) = W * H * 4"
  obtain ii jj where xx: "x = (ii, jj)" by (cases x)
  have b: "ii < W" "jj < H" using assms(2) x xx by auto
  show "splat_pixel W r m i j src c x \<noteq> Inl CanvasOutOfBounds \<and>
        (\<forall>s'. splat_pixel W r m i j src c x = Inr s' \<longrightarrow> length (pixels s') = W * H * 4)"
    using splat_pixel_no_canvas_fault[OF c b] splat_pixel_rel[of W r m i j src c x] c xx
    by (auto simp: scan_rel_def)
qed

lemma read_sample_no_canvas_fault: "read_sample s pic ed i j \<noteq> Inl CanvasOutOfBounds"
  by (simp add: read_sample_def Let_def)

lemma cross_col_no_canvas_fault:
  assumes "length (pixels s) = W * H * 4" "i < W" "j < H" "minI \<le> maxI" "maxI < W"
  shows "cross_col W H pic r ed i minI maxI m s j \<noteq> Inl CanvasOutOfBounds"
proof (cases "yError s ! j = 0")
  case False
  then show ?thesis by (simp add: cross_col_def)
next
  case True
  show ?thesis
  proof (cases "read_sample s pic ed i j")
    case (Inl e)
    then show ?thesis using True read_sample_no_canvas_fault[of s pic ed i j] by (simp add: cross_col_def)
  next
    case (Inr p)
    obtain src s1 where p: "p = (src, s1)" by (cases p)
    have l: "length (pixels s1) = W * H * 4" using read_sample_rel[of s pic ed i j src s1] Inr p assms(1) by simp
    have "\<forall>(ii, jj) \<in> set (cells_col minI maxI (expand_min (yError s1) (r - 1) j) (expand_max (yError s1) H (r - 1) j)).
            ii < W \<and> jj < H"
      using expand_in_bounds[OF assms(3), of "yError s1" "r - 1"] assms(5) by (auto simp: cells_col_iff)
    then show ?thesis using splat_fold_no_canvas_fault[OF l] True Inr p by (simp add: cross_col_def Let_def)
  qed
qed

lemma cross_row_no_canvas_fault:
  assumes "length (pixels s) = W * H * 4" "i < W" "j < H" "minJ \<le> maxJ" "maxJ < H"
  shows "cross_row W H pic r ed j minJ maxJ m s i \<noteq> Inl CanvasOutOfBounds"
proof (cases "xError s ! i = 0")
  case False
  then show ?thesis by (simp add: cross_row_def)
next
  case True
  show ?thesis
  proof (cases "read_sample s pic ed i j")
    case (Inl e)
    then show ?thesis using True read_sample_no_canvas_fault[of s pic ed i j] by (simp add: cross_row_def)
  next
    case (Inr p)
    obtain src s1 where p: "p = (src, s1)" by (cases p)
    have l: "length (pixels s1) = W * H * 4" using read_sample_rel[of s pic ed i j src s1] Inr p assms(1) by simp
    have "\<forall>(ii, jj) \<in> set (cells_row (expand_min (xError s1) (r - 1) i) (expand_max (xError s1) W (r - 1) i) minJ maxJ).
            ii < W \<and> jj < H"
      using expand_in_bounds[OF assms(2), of "xError s1" "r - 1"] assms(5) by (auto simp: cells_row_iff)
    then show ?thesis using splat_fold_no_canvas_fault[OF l] True Inr p by (simp add: cross_row_def Let_def)
  qed
qed

lemma updateLines_no_canvas_fault:
  assumes "ctx_ok W H ctx"
  shows "updateLines ctx W H pic r ed \<noteq> Inl CanvasOutOfBounds"
proof -
  obtain wx xi where wx: "worst (xError ctx) W = (wx, xi)" by (cases "worst (xError ctx) W")
  obtain wy yj where wy: "worst (yError ctx) H = (wy, yj)" by (cases "worst (yError ctx) H")
  have W: "0 < W" "0 < H" and lp: "length (pixels ctx) = W * H * 4" using assms by (simp_all add: ctx_ok_def)
  have xi: "xi < W" using worst_spec[OF W(1), of "xError ctx"] wx by simp
  have yj: "yj < H" using worst_spec[OF W(2), of "yError ctx"] wy by simp
  let ?c1 = "ctx\<lparr>xError := rebalance r xi (expand_min (xError ctx) (r - 1) xi)
                    (expand_max (xError ctx) W (r - 1) xi) (xError ctx)\<rparr>"
  let ?c2 = "ctx\<lparr>yError := rebalance r yj (expand_min (yError ctx) (r - 1) yj)
                    (expand_max (yError ctx) H (r - 1) yj) (yError ctx)\<rparr>"
  have col: "foldE (cross_col W H pic r ed xi (expand_min (xError ctx) (r - 1) xi)
                    (expand_max (xError ctx) W (r - 1) xi) (xError ctx ! xi)) ?c1 [0..<H] \<noteq> Inl CanvasOutOfBounds"
  proof (rule foldE_never[where P = "\<lambda>c. length (pixels c) = W * H * 4"])
    show "length (pixels ?c1) = W * H * 4" using lp by simp
  next
    fix s :: SplashContext and j assume j: "j \<in> set [0..<H]" and s: "length (pixels s) = W * H * 4"
    have jH: "j < H" using j by simp
    show "cross_col W H pic r ed xi (expand_min (xError ctx) (r - 1) xi)
            (expand_max (xError ctx) W (r - 1) xi) (xError ctx ! xi) s j \<noteq> Inl CanvasOutOfBounds \<and>
          (\<forall>s'. cross_col W H pic r ed xi (expand_min (xError ctx) (r - 1) xi)
            (expand_max (xError ctx) W (r - 1) xi) (xError ctx ! xi) s j = Inr s' \<longrightarrow> length (pixels s') = W * H * 4)"
      using cross_col_no_canvas_fault[OF s xi jH expand_in_bounds(1,2)[OF xi]] s
      by (auto dest!: cross_col_rel simp: scan_rel_def)
  qed
  have row: "foldE (cross_row W H pic r ed yj (expand_min (yError ctx) (r - 1) yj)
                    (expand_max (yError ctx) H (r - 1) yj) (yError ctx ! yj)) ?c2 [0..<W] \<noteq> Inl CanvasOutOfBounds"
  proof (rule foldE_never[where P = "\<lambda>c. length (pixels c) = W * H * 4"])
    show "length (pixels ?c2) = W * H * 4" using lp by simp
  next
    fix s :: SplashContext and i assume i: "i \<in> set [0..<W]" and s: "length (pixels s) = W * H * 4"
    have iW: "i < W" using i by simp
    show "cross_row W H pic r ed yj (expand_min (yError ctx) (r - 1) yj)
            (expand_max (yError ctx) H (r - 1) yj) (yError ctx ! yj) s i \<noteq> Inl CanvasOutOfBounds \<and>
          (\<forall>s'. cross_row W H pic r ed yj (expand_min (yError ctx) (r - 1) yj)
            (expand_max (yError ctx) H (r - 1) yj) (yError ctx ! yj) s i = Inr s' \<longrightarrow> length (pixels s') = W * H * 4)"
      using cross_row_no_canvas_fault[OF s iW yj expand_in_bounds(1,2)[OF yj]] s
      by (auto dest!: cross_row_rel simp: scan_rel_def)
  qed
  show ?thesis using col row wx wy
    by (auto simp: updateLines_def Let_def split: sum.splits)
qed

text \<open>
  Claim C10. On a context with positive dimensions and a radius of at least 1, the cells
  of every splash lie on the canvas: for a pivot or cross column \<open>i < W\<close> and row
  \<open>j < H\<close>, both range expansions stay between 0 and \<open>W - 1\<close> (resp. \<open>H - 1\<close>) whatever
  the rulers hold, so every cell \<open>(ii, jj)\<close> of either loop order has \<open>ii < W\<close>,
  \<open>jj < H\<close> and its three bytes inside the canvas; and the engine never ends in the
  out-of-range branch of a canvas access.
\<close>

theorem splat_in_bounds:
  assumes "ctx_ok W H ctx" and "1 \<le> r"
  shows "updateLines ctx W H pic r ed \<noteq> Inl CanvasOutOfBounds \<and>
         (\<forall>xs ys i j ii jj. i < W \<and> j < H \<and>
            ((ii, jj) \<in> set (cells_col (expand_min xs (r - 1) i) (expand_max xs W (r - 1) i)
                                      (expand_min ys (r - 1) j) (expand_max ys H (r - 1) j)) \<or>
             (ii, jj) \<in> set (cells_row (expand_min xs (r - 1) i) (expand_max xs W (r - 1) i)
                                      (expand_min ys (r - 1) j) (expand_max ys H (r - 1) j))) \<longrightarrow>
            ii < W \<and> jj < H \<and> (jj * W + ii) * 4 + 3 \<le> length (pixels ctx))"
proof -
  have lp: "length (pixels ctx) = W * H * 4" using assms(1) by (simp add: ctx_ok_def)
  have "\<And>xs ys i j ii jj. i < W \<Longrightarrow> j < H \<Longrightarrow>
            ((ii, jj) \<in> set (cells_col (expand_min xs (r - 1) i) (expand_max xs W (r - 1) i)
                                      (expand_min ys (r - 1) j) (expand_max ys H (r - 1) j)) \<or>
             (ii, jj) \<in> set (cells_row (expand_min xs (r - 1) i) (expand_max xs W (r - 1) i)
                                      (expand_min ys (r - 1) j) (expand_max ys H (r - 1) j))) \<Longrightarrow>
            ii < W \<and> jj < H \<and> (jj * W + ii) * 4 + 3 \<le> length (pixels ctx)"
  proof -
    fix xs ys :: "nat list" and i j ii jj
    assume i: "i < W" and j: "j < H"
      and c: "(ii, jj) \<in> set (cells_col (expand_min xs (r - 1) i) (expand_max xs W (r - 1) i)
                                      (expand_min ys (r - 1) j) (expand_max ys H (r - 1) j)) \<or>
             (ii, jj) \<in> set (cells_row (expand_min xs (r - 1) i) (expand_max xs W (r - 1) i)
                                      (expand_min ys (r - 1) j) (expand_max ys H (r - 1) j))"
    have b: "ii < W" "jj < H"
      using c expand_in_bounds(2)[OF i, of xs "r - 1"] expand_in_bounds(2)[OF j, of ys "r - 1"]
      by (auto simp: cells_col_iff cells_row_iff)
    show "ii < W \<and> jj < H \<and> (jj * W + ii) * 4 + 3 \<le> length (pixels ctx)"
      using b pixel_index_bound[OF b] lp by simp
  qed
  then show ?thesis using updateLines_no_canvas_fault[OF assms(1)] by blast
qed

theorem splat_in_bounds_witness:
  "ctx_ok 3 1 ex_ctx \<and> (1::nat) \<le> 5 \<and> updateLines ex_ctx 3 1 ex_pic 5 False \<noteq> Inl CanvasOutOfBounds \<and>
   (2, 0) \<in> set (cells_col (expand_min (xError ex_ctx) (5 - 1) 1) (expand_max (xError ex_ctx) 3 (5 - 1) 1)
                          (expand_min (yError ex_ctx) (5 - 1) 0) (expand_max (yError ex_ctx) 1 (5 - 1) 0)) \<and>
   (0 * 3 + 2) * 4 + 3 \<le> length (pixels ex_ctx)"
proof -
  have r: "(1::nat) \<le> 5" by simp
  have c: "(2, 0) \<in> set (cells_col (expand_min (xError ex_ctx) (5 - 1) 1) (expand_max (xError ex_ctx) 3 (5 - 1) 1)
                          (expand_min (yError ex_ctx) (5 - 1) 0) (expand_max (yError ex_ctx) 1 (5 - 1) 0))"
    by code_simp
  note t = splat_in_bounds[OF ex_ctx_ok r, of ex_pic False]
  have "(0 * 3 + 2) * 4 + 3 \<le> length (pixels ex_ctx)" using t c by (simp add: ex_ctx_def)
  then show ?thesis using t c ex_ctx_ok by simp
qed

text \<open>What \<^verbatim>\<open>splash_init\<close> leaves on the canvas: the first \<open>3 * W * H\<close> bytes are \<open>0x7f\<close>, the rest is as allocated.\<close>

lemma splash_init_canvas:
  assumes "splash_init ctx W H xa ya (Some px) = Inr ctx'" and "k < length px"
  shows "pixels ctx' ! k = (if k < 3 * (W * H) then 0x7f else px ! k)"
  using assms by (auto simp: splash_init_def fill_gray_nth split: option.splits)

text \<open>
  Claim C3. The claim fails on the code. The fill loop of \<^verbatim>\<open>splash_init\<close> writes three
  bytes per iteration and does not skip the padding byte, while the canvas has four bytes
  per pixel: only the first \<open>3 * W * H\<close> of the \<open>4 * W * H\<close> bytes are set. For a 2 by 1
  canvas allocated with zero bytes, the blue channel of pixel \<open>(1, 0)\<close> is still 0.
\<close>

theorem splash_init_skips_last_quarter:
  "splash_init ex_ctx 2 1 (Some [0, 0]) (Some [0]) (Some (replicate 8 0)) =
     Inr (ex_ctx\<lparr>xError := [0, 0], yError := [0],
                 pixels := [0x7f, 0x7f, 0x7f, 0x7f, 0x7f, 0x7f, 0, 0]\<rparr>) \<and>
   channel [0x7f, 0x7f, 0x7f, 0x7f, 0x7f, 0x7f, 0, 0] 2 1 0 2 = 0"
  by code_simp

subsection \<open>One splash, byte by byte\<close>

lemma cell_index_inj:
  fixes a b a' b' W :: nat
  assumes "a < W" "a' < W" "b * W + a = b' * W + a'"
  shows "a = a' \<and> b = b'"
proof -
  have "(b * W + a) mod W = a" "(b' * W + a') mod W = a'" using assms(1,2) by simp_all
  then have a: "a = a'" using assms(3) by simp
  have "(b * W + a) div W = b" "(b' * W + a') div W = b'" using assms(1,2) by simp_all
  then show ?thesis using a assms(1,3) by auto
qed

lemma cell_bytes_disjoint:
  fixes a b a' b' W c c' :: nat
  assumes "a < W" "a' < W" "(a, b) \<noteq> (a', b')" "c < 4" "c' < 4"
  shows "(b * W + a) * 4 + c \<noteq> (b' * W + a') * 4 + c'"
proof
  assume e: "(b * W + a) * 4 + c = (b' * W + a') * 4 + c'"
  have "((b * W + a) * 4 + c) div 4 = b * W + a" "((b' * W + a') * 4 + c') div 4 = b' * W + a'"
    using assms(4,5) by simp_all
  then have "b * W + a = b' * W + a'" using e by simp
  then show False using cell_index_inj[OF assms(1,2)] assms(3) by simp
qed

lemma splat_pixel_frame:
  assumes "splat_pixel W r m i j src s (ii, jj) = Inr s'"
    and "n < (jj * W + ii) * 4 \<or> (jj * W + ii) * 4 + 2 < n"
  shows "pixels s' ! n = pixels s ! n"
  using assms by (auto simp: splat_pixel_def Let_def split: if_splits prod.splits)

lemma splat_pixel_other_cell:
  assumes "splat_pixel W r m i j src s (ii, jj) = Inr s'"
    and "ii < W" "a < W" "(a, b) \<noteq> (ii, jj)" "c < 4"
  shows "pixels s' ! ((b * W + a) * 4 + c) = pixels s ! ((b * W + a) * 4 + c)"
proof (rule splat_pixel_frame[OF assms(1)])
  have "\<And>c'. c' < 4 \<Longrightarrow> (b * W + a) * 4 + c \<noteq> (jj * W + ii) * 4 + c'"
    using cell_bytes_disjoint[OF assms(3,2,4,5)] by simp
  from this[of 0] this[of 1] this[of 2]
  show "(b * W + a) * 4 + c < (jj * W + ii) * 4 \<or> (jj * W + ii) * 4 + 2 < (b * W + a) * 4 + c"
    by simp linarith
qed

lemma splat_fold_other_cell:
  assumes "foldE (splat_pixel W r m i j src) s cells = Inr s'"
    and "\<forall>(ii, jj) \<in> set cells. ii < W" "a < W" "(a, b) \<notin> set cells" "c < 4"
  shows "pixels s' ! ((b * W + a) * 4 + c) = pixels s ! ((b * W + a) * 4 + c)"
proof (rule foldE_inv[OF assms(1), where P = "\<lambda>t. pixels t ! ((b * W + a) * 4 + c) = pixels s ! ((b * W + a) * 4 + c)"])
  show "pixels s ! ((b * W + a) * 4 + c) = pixels s ! ((b * W + a) * 4 + c)" by simp
next
  fix t x t' assume x: "x \<in> set cells"
    and t: "pixels t ! ((b * W + a) * 4 + c) = pixels s ! ((b * W + a) * 4 + c)"
    and st: "splat_pixel W r m i j src t x = Inr t'"
  obtain ii jj where xx: "x = (ii, jj)" by (cases x)
  have "ii < W" "(a, b) \<noteq> (ii, jj)" using assms(2,4) x xx by auto
  then show "pixels t' ! ((b * W + a) * 4 + c) = pixels s ! ((b * W + a) * 4 + c)"
    using splat_pixel_other_cell[OF st[unfolded xx] _ assms(3) _ assms(5)] t by simp
qed

lemma splat_pixel_center:
  assumes "splat_pixel W r m i j (sR, sG, sB) s (i, j) = Inr s'"
    and "0 < r" "xError s ! i = 0" "yError s ! j = 0"
  shows "pixels s' ! ((j * W + i) * 4) = sR \<and> pixels s' ! ((j * W + i) * 4 + 1) = sG \<and>
         pixels s' ! ((j * W + i) * 4 + 2) = sB"
  using assms fillAlpha_pos_center[OF assms(2)]
  by (auto simp: splat_pixel_def Let_def blend_alpha_center blend_256 split: if_splits)

lemma splat_pixel_no_assert:
  assumes "xError s ! i = 0" "yError s ! j = 0"
  shows "splat_pixel W r m i j src s c \<noteq> Inl AssertFailed"
  using assms by (auto simp: splat_pixel_def Let_def blend_alpha_center split: prod.splits)

lemma splat_fold_center:
  assumes f: "foldE (splat_pixel W r m i j (sR, sG, sB)) s cells = Inr s'"
    and cells: "\<forall>(ii, jj) \<in> set cells. ii < W" "(i, j) \<in> set cells"
    and i: "i < W" and r: "0 < r" and z: "xError s ! i = 0" "yError s ! j = 0"
  shows "pixels s' ! ((j * W + i) * 4) = sR \<and> pixels s' ! ((j * W + i) * 4 + 1) = sG \<and>
         pixels s' ! ((j * W + i) * 4 + 2) = sB"
proof -
  obtain pre post where sp: "cells = pre @ (i, j) # post" "(i, j) \<notin> set post"
    using split_list_last[OF cells(2)] by blast
  obtain t where t: "foldE (splat_pixel W r m i j (sR, sG, sB)) s pre = Inr t"
    and f2: "foldE (splat_pixel W r m i j (sR, sG, sB)) t ((i, j) # post) = Inr s'"
    using f unfolding sp(1) foldE_append by (auto split: sum.splits)
  obtain t' where t': "splat_pixel W r m i j (sR, sG, sB) t (i, j) = Inr t'"
    and f3: "foldE (splat_pixel W r m i j (sR, sG, sB)) t' post = Inr s'"
    using f2 by (auto split: sum.splits)
  have zt: "xError t ! i = 0" "yError t ! j = 0"
    using splat_fold_rel[OF t] z by (simp_all add: scan_rel_def)
  note c = splat_pixel_center[OF t' r zt]
  have post: "\<forall>(ii, jj) \<in> set post. ii < W" using cells(1) sp(1) by auto
  have "\<And>c. c < 4 \<Longrightarrow> pixels s' ! ((j * W + i) * 4 + c) = pixels t' ! ((j * W + i) * 4 + c)"
    by (rule splat_fold_other_cell[OF f3 post i sp(2)])
  from this[of 0] this[of 1] this[of 2] show ?thesis using c by simp
qed

text \<open>A cross point: the sample and the splash around it.\<close>

lemma read_sample_data:
  assumes "read_sample s pic ed i j = Inr ((sR, sG, sB), s1)"
  shows "data s1 ! pos s = sR \<and> data s1 ! (pos s + 1) = sG \<and> data s1 ! (pos s + 2) = sB \<and>
         (\<forall>n<pos s. data s1 ! n = data s ! n) \<and>
         (ed \<longrightarrow> sR = fdata pic ! (j * linesize pic + i * 4) \<and>
                 sG = fdata pic ! (j * linesize pic + i * 4 + 1) \<and>
                 sB = fdata pic ! (j * linesize pic + i * 4 + 2)) \<and>
         (\<not> ed \<longrightarrow> data s1 = data s)"
  using assms by (auto simp: read_sample_def Let_def split: if_splits)

lemma splat_at_cross:
  assumes rs: "read_sample s pic ed i j = Inr (src, s1)"
    and f: "foldE (splat_pixel W r m i j src) s1 cells = Inr s'"
    and cells: "\<forall>(ii, jj) \<in> set cells. ii < W" "(i, j) \<in> set cells"
    and i: "i < W" and r: "0 < r" and z: "xError s ! i = 0" "yError s ! j = 0"
  shows "pos s' = pos s + 3"
    and "\<forall>c<3. pixels s' ! ((j * W + i) * 4 + c) = data s' ! (pos s + c)"
    and "\<forall>n<pos s. data s' ! n = data s ! n"
    and "ed \<Longrightarrow> \<forall>c<3. data s' ! (pos s + c) = fdata pic ! (j * linesize pic + i * 4 + c)"
    and "\<not> ed \<Longrightarrow> data s' = data s"
    and "\<And>a b c. a < W \<Longrightarrow> (a, b) \<notin> set cells \<Longrightarrow> c < 4 \<Longrightarrow>
           pixels s' ! ((b * W + a) * 4 + c) = pixels s ! ((b * W + a) * 4 + c)"
proof -
  obtain sR sG sB where src: "src = (sR, sG, sB)" by (cases src)
  note rr = read_sample_rel[OF rs] and rd = read_sample_data[OF rs[unfolded src]]
  note fr = splat_fold_rel[OF f]
  have z1: "xError s1 ! i = 0" "yError s1 ! j = 0" using rr z by (simp_all add: scan_rel_def)
  note c = splat_fold_center[OF f[unfolded src] cells i r z1]
  show "pos s' = pos s + 3" using rr fr by simp
  have c3: "\<And>c. c < 3 \<Longrightarrow> c = 0 \<or> c = 1 \<or> c = (2::nat)" by linarith
  show "\<forall>c<3. pixels s' ! ((j * W + i) * 4 + c) = data s' ! (pos s + c)"
    using c rd fr by (auto dest!: c3)
  show "\<forall>n<pos s. data s' ! n = data s ! n" using rd fr by simp
  show "ed \<Longrightarrow> \<forall>c<3. data s' ! (pos s + c) = fdata pic ! (j * linesize pic + i * 4 + c)"
    using rd fr by (auto dest!: c3)
  show "\<not> ed \<Longrightarrow> data s' = data s" using rd fr by simp
  show "\<And>a b c. a < W \<Longrightarrow> (a, b) \<notin> set cells \<Longrightarrow> c < 4 \<Longrightarrow>
           pixels s' ! ((b * W + a) * 4 + c) = pixels s ! ((b * W + a) * 4 + c)"
    using splat_fold_other_cell[OF f cells(1)] rr by simp
qed

subsection \<open>The scan of an iteration\<close>

lemma exact_before_Suc:
  "exact_before err (Suc n) = exact_before err n + (if err ! n = 0 then 1 else 0)"
  by (simp add: exact_before_def)

lemma exact_before_mono: "j \<le> n \<Longrightarrow> exact_before err j \<le> exact_before err n"
  by (induction n) (auto simp: exact_before_Suc le_Suc_eq)

lemma exact_before_less:
  assumes "j < n" "err ! j = 0"
  shows "exact_before err j < exact_before err n"
proof -
  have "exact_before err (Suc j) \<le> exact_before err n" using assms(1) by (intro exact_before_mono) simp
  then show ?thesis using assms(2) by (simp add: exact_before_Suc)
qed

lemma scan_col_centers:
  assumes f: "foldE (cross_col W H pic r ed i minI maxI m) s0 [0..<n] = Inr t"
    and b: "n \<le> H" "i < W" "minI \<le> i" "i \<le> maxI" "maxI < W" "0 < r" and z: "xError s0 ! i = 0"
  shows "scan_rel s0 t \<and> pos t = pos s0 + 3 * exact_before (yError s0) n \<and>
         (\<forall>k<pos s0. data t ! k = data s0 ! k) \<and> (\<not> ed \<longrightarrow> data t = data s0) \<and>
         (\<forall>j<n. yError s0 ! j = 0 \<longrightarrow>
            (\<forall>c<3. pixels t ! ((j * W + i) * 4 + c) = data t ! (pos s0 + 3 * exact_before (yError s0) j + c) \<and>
                   (ed \<longrightarrow> data t ! (pos s0 + 3 * exact_before (yError s0) j + c) =
                           fdata pic ! (j * linesize pic + i * 4 + c))))"
  using f b(1)
proof (induction n arbitrary: t)
  case 0
  then show ?case by (simp add: exact_before_def)
next
  case (Suc n)
  let ?f = "cross_col W H pic r ed i minI maxI m"
  let ?ys = "yError s0"
  obtain t0 where t0: "foldE ?f s0 [0..<n] = Inr t0" and st: "?f t0 n = Inr t"
    using Suc.prems(1) by (auto simp: foldE_append split: sum.splits)
  have nH: "n < H" using Suc.prems(2) by simp
  note IH = Suc.IH[OF t0] 
  have IH': "scan_rel s0 t0" "pos t0 = pos s0 + 3 * exact_before ?ys n"
    "\<forall>k<pos s0. data t0 ! k = data s0 ! k" "\<not> ed \<longrightarrow> data t0 = data s0"
    "\<forall>j<n. ?ys ! j = 0 \<longrightarrow>
            (\<forall>c<3. pixels t0 ! ((j * W + i) * 4 + c) = data t0 ! (pos s0 + 3 * exact_before ?ys j + c) \<and>
                   (ed \<longrightarrow> data t0 ! (pos s0 + 3 * exact_before ?ys j + c) =
                           fdata pic ! (j * linesize pic + i * 4 + c)))"
    using IH nH by simp_all
  have ys: "yError t0 = ?ys" and xs: "xError t0 ! i = 0" using IH'(1) z by (simp_all add: scan_rel_def)
  show ?case
  proof (cases "?ys ! n = 0")
    case False
    then have "t = t0" using st ys by (simp add: cross_col_def)
    then show ?thesis using IH' False by (auto simp: exact_before_Suc less_Suc_eq)
  next
    case True
    obtain src s1 where rs: "read_sample t0 pic ed i n = Inr (src, s1)"
      and fs: "foldE (splat_pixel W r m i n src) s1
                 (cells_col minI maxI (expand_min (yError s1) (r - 1) n) (expand_max (yError s1) H (r - 1) n)) = Inr t"
      using st True ys by (auto simp: cross_col_def Let_def split: sum.splits)
    have ys1: "yError s1 = ?ys" using read_sample_rel[OF rs] ys by (simp add: scan_rel_def)
    let ?lo = "expand_min ?ys (r - 1) n" and ?hi = "expand_max ?ys H (r - 1) n"
    let ?cells = "cells_col minI maxI ?lo ?hi"
    note mn = expand_min_spec[of ?ys "r - 1" n] and mx = expand_max_spec[of n ?ys H "r - 1"]
    have c1: "\<forall>(ii, jj) \<in> set ?cells. ii < W" using b(5) by (auto simp: cells_col_iff)
    have c2: "(i, n) \<in> set ?cells" using b(3,4) mn mx by (simp add: cells_col_iff)
    have out: "\<And>j. j < n \<Longrightarrow> ?ys ! j = 0 \<Longrightarrow> (i, j) \<notin> set ?cells"
      using mn by (auto simp: cells_col_iff)
    have z0: "yError t0 ! n = 0" using True ys by simp
    note sc = splat_at_cross[OF rs fs[unfolded ys1] c1 c2 b(2) b(6) xs z0]
    have rel: "scan_rel s0 t" using cross_col_rel[OF st] IH'(1) by (auto intro: scan_rel_trans)
    have p: "pos t = pos s0 + 3 * exact_before ?ys (Suc n)" using sc(1) IH'(2) True by (simp add: exact_before_Suc)
    have d: "\<forall>k<pos s0. data t ! k = data s0 ! k" using sc(3) IH'(2,3) by simp
    have nd: "\<not> ed \<longrightarrow> data t = data s0" using sc(5) IH'(4) by simp
    have cen: "\<And>j. j < Suc n \<Longrightarrow> ?ys ! j = 0 \<Longrightarrow>
            (\<forall>c<3. pixels t ! ((j * W + i) * 4 + c) = data t ! (pos s0 + 3 * exact_before ?ys j + c) \<and>
                   (ed \<longrightarrow> data t ! (pos s0 + 3 * exact_before ?ys j + c) =
                           fdata pic ! (j * linesize pic + i * 4 + c)))"
    proof -
      fix j assume j: "j < Suc n" and zj: "?ys ! j = 0"
      show "\<forall>c<3. pixels t ! ((j * W + i) * 4 + c) = data t ! (pos s0 + 3 * exact_before ?ys j + c) \<and>
                   (ed \<longrightarrow> data t ! (pos s0 + 3 * exact_before ?ys j + c) =
                           fdata pic ! (j * linesize pic + i * 4 + c))"
      proof (cases "j = n")
        case True
        then show ?thesis using sc(2) sc(4) IH'(2) by auto
      next
        case False
        then have jn: "j < n" using j by simp
        have lt: "exact_before ?ys j < exact_before ?ys n" by (rule exact_before_less[OF jn zj])
        show ?thesis
        proof (intro allI impI)
          fix c :: nat assume c: "c < 3"
          have c4: "c < 4" using c by simp
          have "pos s0 + 3 * exact_before ?ys j + c < pos t0" using lt c IH'(2) by linarith
          then have dd: "data t ! (pos s0 + 3 * exact_before ?ys j + c) = data t0 ! (pos s0 + 3 * exact_before ?ys j + c)"
            using sc(3) by simp
          have pp: "pixels t ! ((j * W + i) * 4 + c) = pixels t0 ! ((j * W + i) * 4 + c)"
            by (rule sc(6)[OF b(2) out[OF jn zj] c4])
          show "pixels t ! ((j * W + i) * 4 + c) = data t ! (pos s0 + 3 * exact_before ?ys j + c) \<and>
                   (ed \<longrightarrow> data t ! (pos s0 + 3 * exact_before ?ys j + c) =
                           fdata pic ! (j * linesize pic + i * 4 + c))"
            using IH'(5) jn zj c dd pp by simp
        qed
      qed
    qed
    show ?thesis using rel p d nd cen by blast
  qed
qed


lemma scan_row_centers:
  assumes f: "foldE (cross_row W H pic r ed j minJ maxJ m) s0 [0..<n] = Inr t"
    and b: "n \<le> W" "minJ \<le> j" "j \<le> maxJ" "0 < r" and z: "yError s0 ! j = 0"
  shows "scan_rel s0 t \<and> pos t = pos s0 + 3 * exact_before (xError s0) n \<and>
         (\<forall>k<pos s0. data t ! k = data s0 ! k) \<and> (\<not> ed \<longrightarrow> data t = data s0) \<and>
         (\<forall>i<n. xError s0 ! i = 0 \<longrightarrow>
            (\<forall>c<3. pixels t ! ((j * W + i) * 4 + c) = data t ! (pos s0 + 3 * exact_before (xError s0) i + c) \<and>
                   (ed \<longrightarrow> data t ! (pos s0 + 3 * exact_before (xError s0) i + c) =
                           fdata pic ! (j * linesize pic + i * 4 + c))))"
  using f b(1)
proof (induction n arbitrary: t)
  case 0
  then show ?case by (simp add: exact_before_def)
next
  case (Suc n)
  let ?f = "cross_row W H pic r ed j minJ maxJ m"
  let ?xs = "xError s0"
  obtain t0 where t0: "foldE ?f s0 [0..<n] = Inr t0" and st: "?f t0 n = Inr t"
    using Suc.prems(1) by (auto simp: foldE_append split: sum.splits)
  have nW: "n < W" using Suc.prems(2) by simp
  note IH = Suc.IH[OF t0]
  have IH': "scan_rel s0 t0" "pos t0 = pos s0 + 3 * exact_before ?xs n"
    "\<forall>k<pos s0. data t0 ! k = data s0 ! k" "\<not> ed \<longrightarrow> data t0 = data s0"
    "\<forall>i<n. ?xs ! i = 0 \<longrightarrow>
            (\<forall>c<3. pixels t0 ! ((j * W + i) * 4 + c) = data t0 ! (pos s0 + 3 * exact_before ?xs i + c) \<and>
                   (ed \<longrightarrow> data t0 ! (pos s0 + 3 * exact_before ?xs i + c) =
                           fdata pic ! (j * linesize pic + i * 4 + c)))"
    using IH nW by simp_all
  have xs: "xError t0 = ?xs" and ys: "yError t0 ! j = 0" using IH'(1) z by (simp_all add: scan_rel_def)
  show ?case
  proof (cases "?xs ! n = 0")
    case False
    then have "t = t0" using st xs by (simp add: cross_row_def)
    then show ?thesis using IH' False by (auto simp: exact_before_Suc less_Suc_eq)
  next
    case True
    obtain src s1 where rs: "read_sample t0 pic ed n j = Inr (src, s1)"
      and fs: "foldE (splat_pixel W r m n j src) s1
                 (cells_row (expand_min (xError s1) (r - 1) n) (expand_max (xError s1) W (r - 1) n) minJ maxJ) = Inr t"
      using st True xs by (auto simp: cross_row_def Let_def split: sum.splits)
    have xs1: "xError s1 = ?xs" using read_sample_rel[OF rs] xs by (simp add: scan_rel_def)
    let ?lo = "expand_min ?xs (r - 1) n" and ?hi = "expand_max ?xs W (r - 1) n"
    let ?cells = "cells_row ?lo ?hi minJ maxJ"
    note mn = expand_min_spec[of ?xs "r - 1" n] and mx = expand_max_spec[of n ?xs W "r - 1"]
    have hiW: "?hi < W" using mx nW by simp
    have c1: "\<forall>(ii, jj) \<in> set ?cells. ii < W" using hiW by (auto simp: cells_row_iff)
    have c2: "(n, j) \<in> set ?cells" using b(2,3) mn mx by (simp add: cells_row_iff)
    have out: "\<And>i. i < n \<Longrightarrow> ?xs ! i = 0 \<Longrightarrow> (i, j) \<notin> set ?cells"
      using mn by (auto simp: cells_row_iff)
    have z0: "xError t0 ! n = 0" using True xs by simp
    note sc = splat_at_cross[OF rs fs[unfolded xs1] c1 c2 nW b(4) z0 ys]
    have rel: "scan_rel s0 t" using cross_row_rel[OF st] IH'(1) by (auto intro: scan_rel_trans)
    have p: "pos t = pos s0 + 3 * exact_before ?xs (Suc n)" using sc(1) IH'(2) True by (simp add: exact_before_Suc)
    have d: "\<forall>k<pos s0. data t ! k = data s0 ! k" using sc(3) IH'(2,3) by simp
    have nd: "\<not> ed \<longrightarrow> data t = data s0" using sc(5) IH'(4) by simp
    have cen: "\<And>i. i < Suc n \<Longrightarrow> ?xs ! i = 0 \<Longrightarrow>
            (\<forall>c<3. pixels t ! ((j * W + i) * 4 + c) = data t ! (pos s0 + 3 * exact_before ?xs i + c) \<and>
                   (ed \<longrightarrow> data t ! (pos s0 + 3 * exact_before ?xs i + c) =
                           fdata pic ! (j * linesize pic + i * 4 + c)))"
    proof -
      fix i assume i: "i < Suc n" and zi: "?xs ! i = 0"
      show "\<forall>c<3. pixels t ! ((j * W + i) * 4 + c) = data t ! (pos s0 + 3 * exact_before ?xs i + c) \<and>
                   (ed \<longrightarrow> data t ! (pos s0 + 3 * exact_before ?xs i + c) =
                           fdata pic ! (j * linesize pic + i * 4 + c))"
      proof (cases "i = n")
        case True
        then show ?thesis using sc(2) sc(4) IH'(2) by auto
      next
        case False
        then have lt_n: "i < n" using i by simp
        have iW: "i < W" using lt_n nW by simp
        have lt: "exact_before ?xs i < exact_before ?xs n" by (rule exact_before_less[OF lt_n zi])
        show ?thesis
        proof (intro allI impI)
          fix c :: nat assume c: "c < 3"
          have c4: "c < 4" using c by simp
          have "pos s0 + 3 * exact_before ?xs i + c < pos t0" using lt c IH'(2) by linarith
          then have dd: "data t ! (pos s0 + 3 * exact_before ?xs i + c) = data t0 ! (pos s0 + 3 * exact_before ?xs i + c)"
            using sc(3) by simp
          have pp: "pixels t ! ((j * W + i) * 4 + c) = pixels t0 ! ((j * W + i) * 4 + c)"
            by (rule sc(6)[OF iW out[OF lt_n zi] c4])
          show "pixels t ! ((j * W + i) * 4 + c) = data t ! (pos s0 + 3 * exact_before ?xs i + c) \<and>
                   (ed \<longrightarrow> data t ! (pos s0 + 3 * exact_before ?xs i + c) =
                           fdata pic ! (j * linesize pic + i * 4 + c))"
            using IH'(5) lt_n zi c dd pp by simp
        qed
      qed
    qed
    show ?thesis using rel p d nd cen by blast
  qed
qed

lemma updateLines_col:
  assumes "updateLines ctx W H pic r ed = Inr (True, ctx')"
    and "fst (worst (yError ctx) H) < fst (worst (xError ctx) W)"
  shows "foldE (cross_col W H pic r ed (snd (worst (xError ctx) W))
            (expand_min (xError ctx) (r - 1) (snd (worst (xError ctx) W)))
            (expand_max (xError ctx) W (r - 1) (snd (worst (xError ctx) W)))
            (xError ctx ! snd (worst (xError ctx) W)))
          (ctx\<lparr>xError := rebalance r (snd (worst (xError ctx) W))
                 (expand_min (xError ctx) (r - 1) (snd (worst (xError ctx) W)))
                 (expand_max (xError ctx) W (r - 1) (snd (worst (xError ctx) W))) (xError ctx)\<rparr>)
          [0..<H] = Inr ctx'"
proof -
  obtain wx xi where wx: "worst (xError ctx) W = (wx, xi)" by (cases "worst (xError ctx) W")
  obtain wy yj where wy: "worst (yError ctx) H = (wy, yj)" by (cases "worst (yError ctx) H")
  have lt: "wy < wx" using assms(2) wx wy by simp
  then have nz: "wx + wy \<noteq> 0" by simp
  show ?thesis using assms(1) lt nz unfolding updateLines_def wx wy
    by (simp add: Let_def split: sum.splits)
qed

lemma updateLines_row:
  assumes "updateLines ctx W H pic r ed = Inr (True, ctx')"
    and "\<not> fst (worst (yError ctx) H) < fst (worst (xError ctx) W)"
  shows "foldE (cross_row W H pic r ed (snd (worst (yError ctx) H))
            (expand_min (yError ctx) (r - 1) (snd (worst (yError ctx) H)))
            (expand_max (yError ctx) H (r - 1) (snd (worst (yError ctx) H)))
            (yError ctx ! snd (worst (yError ctx) H)))
          (ctx\<lparr>yError := rebalance r (snd (worst (yError ctx) H))
                 (expand_min (yError ctx) (r - 1) (snd (worst (yError ctx) H)))
                 (expand_max (yError ctx) H (r - 1) (snd (worst (yError ctx) H))) (yError ctx)\<rparr>)
          [0..<W] = Inr ctx'"
proof -
  obtain wx xi where wx: "worst (xError ctx) W = (wx, xi)" by (cases "worst (xError ctx) W")
  obtain wy yj where wy: "worst (yError ctx) H = (wy, yj)" by (cases "worst (yError ctx) H")
  have lt: "\<not> wy < wx" using assms(2) wx wy by simp
  have nz: "wx + wy \<noteq> 0" using assms(1) unfolding updateLines_def wx wy by (auto split: if_splits)
  show ?thesis using assms(1) lt nz unfolding updateLines_def wx wy
    by (simp add: Let_def split: sum.splits)
qed



lemma read_sample_no_assert: "read_sample s pic ed i j \<noteq> Inl AssertFailed"
  by (simp add: read_sample_def Let_def)

lemma splat_fold_no_assert:
  assumes "xError s ! i = 0" "yError s ! j = 0"
  shows "foldE (splat_pixel W r m i j src) s cells \<noteq> Inl AssertFailed"
proof (rule foldE_never[where P = "\<lambda>c. xError c ! i = 0 \<and> yError c ! j = 0"])
  show "xError s ! i = 0 \<and> yError s ! j = 0" using assms by simp
next
  fix c :: SplashContext and x assume "x \<in> set cells" and c: "xError c ! i = 0 \<and> yError c ! j = 0"
  have na: "splat_pixel W r m i j src c x \<noteq> Inl AssertFailed"
    by (rule splat_pixel_no_assert) (use c in simp_all)
  have pres: "\<And>s'. splat_pixel W r m i j src c x = Inr s' \<Longrightarrow> xError s' ! i = 0 \<and> yError s' ! j = 0"
  proof -
    fix s' assume "splat_pixel W r m i j src c x = Inr s'"
    then have "scan_rel c s'" using splat_pixel_rel by blast
    then have "xError s' = xError c" "yError s' = yError c" by (simp_all add: scan_rel_def)
    then show "xError s' ! i = 0 \<and> yError s' ! j = 0" using c by simp
  qed
  show "splat_pixel W r m i j src c x \<noteq> Inl AssertFailed \<and>
        (\<forall>s'. splat_pixel W r m i j src c x = Inr s' \<longrightarrow> xError s' ! i = 0 \<and> yError s' ! j = 0)"
    using na pres by blast
qed

lemma cross_col_no_assert:
  assumes "xError s ! i = 0"
  shows "cross_col W H pic r ed i minI maxI m s j \<noteq> Inl AssertFailed"
proof (cases "yError s ! j = 0")
  case False
  then show ?thesis by (simp add: cross_col_def)
next
  case True
  show ?thesis
  proof (cases "read_sample s pic ed i j")
    case (Inl e)
    then show ?thesis using True read_sample_no_assert[of s pic ed i j] by (simp add: cross_col_def)
  next
    case (Inr p)
    obtain src s1 where p: "p = (src, s1)" by (cases p)
    have z: "xError s1 ! i = 0" "yError s1 ! j = 0"
      using read_sample_rel[of s pic ed i j src s1] Inr p assms True by (simp_all add: scan_rel_def)
    show ?thesis using splat_fold_no_assert[OF z] True Inr p by (simp add: cross_col_def Let_def)
  qed
qed

lemma cross_row_no_assert:
  assumes "yError s ! j = 0"
  shows "cross_row W H pic r ed j minJ maxJ m s i \<noteq> Inl AssertFailed"
proof (cases "xError s ! i = 0")
  case False
  then show ?thesis by (simp add: cross_row_def)
next
  case True
  show ?thesis
  proof (cases "read_sample s pic ed i j")
    case (Inl e)
    then show ?thesis using True read_sample_no_assert[of s pic ed i j] by (simp add: cross_row_def)
  next
    case (Inr p)
    obtain src s1 where p: "p = (src, s1)" by (cases p)
    have z: "xError s1 ! i = 0" "yError s1 ! j = 0"
      using read_sample_rel[of s pic ed i j src s1] Inr p assms True by (simp_all add: scan_rel_def)
    show ?thesis using splat_fold_no_assert[OF z] True Inr p by (simp add: cross_row_def Let_def)
  qed
qed

lemma updateLines_no_assert:
  assumes "ctx_ok W H ctx"
  shows "updateLines ctx W H pic r ed \<noteq> Inl AssertFailed"
proof -
  obtain wx xi where wx: "worst (xError ctx) W = (wx, xi)" by (cases "worst (xError ctx) W")
  obtain wy yj where wy: "worst (yError ctx) H = (wy, yj)" by (cases "worst (yError ctx) H")
  have W: "0 < W" "0 < H" and lx: "length (xError ctx) = W" and ly: "length (yError ctx) = H"
    and bx: "list_all (\<lambda>e. e < 2 ^ 24) (xError ctx)" and by': "list_all (\<lambda>e. e < 2 ^ 24) (yError ctx)"
    using assms by (simp_all add: ctx_ok_def)
  have xi: "xi < length (xError ctx)" using worst_spec[OF W(1), of "xError ctx"] wx lx by simp
  have yj: "yj < length (yError ctx)" using worst_spec[OF W(2), of "yError ctx"] wy ly by simp
  let ?x1 = "rebalance r xi (expand_min (xError ctx) (r - 1) xi) (expand_max (xError ctx) W (r - 1) xi) (xError ctx)"
  let ?y1 = "rebalance r yj (expand_min (yError ctx) (r - 1) yj) (expand_max (yError ctx) H (r - 1) yj) (yError ctx)"
  have zx: "?x1 ! xi = 0" using rebalance_props(1)[OF xi bx, where r = r] lx by simp
  have zy: "?y1 ! yj = 0" using rebalance_props(1)[OF yj by', where r = r] ly by simp
  have col: "foldE (cross_col W H pic r ed xi (expand_min (xError ctx) (r - 1) xi)
                    (expand_max (xError ctx) W (r - 1) xi) (xError ctx ! xi)) (ctx\<lparr>xError := ?x1\<rparr>) [0..<H] \<noteq> Inl AssertFailed"
  proof (rule foldE_never[where P = "\<lambda>c. xError c ! xi = 0"])
    show "xError (ctx\<lparr>xError := ?x1\<rparr>) ! xi = 0" using zx by simp
  next
    fix s :: SplashContext and j assume "j \<in> set [0..<H]" and s: "xError s ! xi = 0"
    show "cross_col W H pic r ed xi (expand_min (xError ctx) (r - 1) xi)
            (expand_max (xError ctx) W (r - 1) xi) (xError ctx ! xi) s j \<noteq> Inl AssertFailed \<and>
          (\<forall>s'. cross_col W H pic r ed xi (expand_min (xError ctx) (r - 1) xi)
            (expand_max (xError ctx) W (r - 1) xi) (xError ctx ! xi) s j = Inr s' \<longrightarrow> xError s' ! xi = 0)"
      using cross_col_no_assert[OF s] s by (auto dest!: cross_col_rel simp: scan_rel_def)
  qed
  have row: "foldE (cross_row W H pic r ed yj (expand_min (yError ctx) (r - 1) yj)
                    (expand_max (yError ctx) H (r - 1) yj) (yError ctx ! yj)) (ctx\<lparr>yError := ?y1\<rparr>) [0..<W] \<noteq> Inl AssertFailed"
  proof (rule foldE_never[where P = "\<lambda>c. yError c ! yj = 0"])
    show "yError (ctx\<lparr>yError := ?y1\<rparr>) ! yj = 0" using zy by simp
  next
    fix s :: SplashContext and i assume "i \<in> set [0..<W]" and s: "yError s ! yj = 0"
    show "cross_row W H pic r ed yj (expand_min (yError ctx) (r - 1) yj)
            (expand_max (yError ctx) H (r - 1) yj) (yError ctx ! yj) s i \<noteq> Inl AssertFailed \<and>
          (\<forall>s'. cross_row W H pic r ed yj (expand_min (yError ctx) (r - 1) yj)
            (expand_max (yError ctx) H (r - 1) yj) (yError ctx ! yj) s i = Inr s' \<longrightarrow> yError s' ! yj = 0)"
      using cross_row_no_assert[OF s] s by (auto dest!: cross_row_rel simp: scan_rel_def)
  qed
  show ?thesis using col row wx wy
    by (auto simp: updateLines_def Let_def split: sum.splits)
qed

text \<open>
  Claim C6. On a well-formed context with a positive radius the always-checked assertion
  \<^verbatim>\<open>alpha == 256\<close> never fails. After an iteration that does work, at every cross point
  (the pivot line and a perpendicular line whose ruler entry is zero) the blend weight
  computed from the rulers as the splat reads them is 256, and the three channels of the
  canvas pixel are the three bytes of that cross point's sample in the stream (the
  \<open>k\<close>-th sample of the iteration for the \<open>k\<close>-th exact line); when encoding they are the
  target's pixel, when decoding the stream is unchanged.
\<close>

theorem center_pixel_identity:
  assumes "ctx_ok W H ctx" and "0 < r"
  shows "updateLines ctx W H pic r ed \<noteq> Inl AssertFailed \<and>
    (\<forall>ctx'. updateLines ctx W H pic r ed = Inr (True, ctx') \<longrightarrow>
       (\<not> ed \<longrightarrow> data ctx' = data ctx) \<and>
       (if fst (worst (yError ctx) H) < fst (worst (xError ctx) W)
        then (let i = snd (worst (xError ctx) W)
              in \<forall>j<H. yError ctx ! j = 0 \<longrightarrow>
                   blend_alpha (xError ctx' ! i) (yError ctx' ! j) (xError ctx ! i) = 256 \<and>
                   (\<forall>c<3. channel (pixels ctx') W i j c =
                             data ctx' ! (pos ctx + 3 * exact_before (yError ctx) j + c)) \<and>
                   (ed \<longrightarrow> (\<forall>c<3. channel (pixels ctx') W i j c =
                             fdata pic ! (j * linesize pic + i * 4 + c))))
        else (let j = snd (worst (yError ctx) H)
              in \<forall>i<W. xError ctx ! i = 0 \<longrightarrow>
                   blend_alpha (xError ctx' ! i) (yError ctx' ! j) (yError ctx ! j) = 256 \<and>
                   (\<forall>c<3. channel (pixels ctx') W i j c =
                             data ctx' ! (pos ctx + 3 * exact_before (xError ctx) i + c)) \<and>
                   (ed \<longrightarrow> (\<forall>c<3. channel (pixels ctx') W i j c =
                             fdata pic ! (j * linesize pic + i * 4 + c))))))"
proof (intro conjI allI impI)
  show "updateLines ctx W H pic r ed \<noteq> Inl AssertFailed" by (rule updateLines_no_assert[OF assms(1)])
next
  fix ctx' assume res: "updateLines ctx W H pic r ed = Inr (True, ctx')"
  have W: "0 < W" "0 < H" and lx: "length (xError ctx) = W" and ly: "length (yError ctx) = H"
    and bx: "list_all (\<lambda>e. e < 2 ^ 24) (xError ctx)" and by': "list_all (\<lambda>e. e < 2 ^ 24) (yError ctx)"
    using assms(1) by (simp_all add: ctx_ok_def)
  let ?xi = "snd (worst (xError ctx) W)" and ?yj = "snd (worst (yError ctx) H)"
  note p = ctx_ok_pivots[OF assms(1)]
  have main: "(\<not> ed \<longrightarrow> data ctx' = data ctx) \<and>
       (if fst (worst (yError ctx) H) < fst (worst (xError ctx) W)
        then (\<forall>j<H. yError ctx ! j = 0 \<longrightarrow>
                   blend_alpha (xError ctx' ! ?xi) (yError ctx' ! j) (xError ctx ! ?xi) = 256 \<and>
                   (\<forall>c<3. channel (pixels ctx') W ?xi j c =
                             data ctx' ! (pos ctx + 3 * exact_before (yError ctx) j + c)) \<and>
                   (ed \<longrightarrow> (\<forall>c<3. channel (pixels ctx') W ?xi j c =
                             fdata pic ! (j * linesize pic + ?xi * 4 + c))))
        else (\<forall>i<W. xError ctx ! i = 0 \<longrightarrow>
                   blend_alpha (xError ctx' ! i) (yError ctx' ! ?yj) (yError ctx ! ?yj) = 256 \<and>
                   (\<forall>c<3. channel (pixels ctx') W i ?yj c =
                             data ctx' ! (pos ctx + 3 * exact_before (xError ctx) i + c)) \<and>
                   (ed \<longrightarrow> (\<forall>c<3. channel (pixels ctx') W i ?yj c =
                             fdata pic ! (?yj * linesize pic + i * 4 + c)))))"
  proof (cases "fst (worst (yError ctx) H) < fst (worst (xError ctx) W)")
    case True
    let ?lo = "expand_min (xError ctx) (r - 1) ?xi" and ?hi = "expand_max (xError ctx) W (r - 1) ?xi"
    let ?c1 = "ctx\<lparr>xError := rebalance r ?xi ?lo ?hi (xError ctx)\<rparr>"
    note f = updateLines_col[OF res True]
    have xiW: "?xi < W" using p(1) lx by simp
    note e = expand_in_bounds[OF xiW, of "xError ctx" "r - 1"]
    have z: "xError ?c1 ! ?xi = 0" using rebalance_props(1)[OF p(1) bx, where r = r] lx by simp
    note sc = scan_col_centers[OF f le_refl xiW e(3) e(4) e(2) assms(2) z]
    have rel: "xError ctx' ! ?xi = 0" "yError ctx' = yError ctx" using sc z by (simp_all add: scan_rel_def)
    show ?thesis using True sc rel by (simp add: channel_def blend_alpha_center)
  next
    case False
    let ?lo = "expand_min (yError ctx) (r - 1) ?yj" and ?hi = "expand_max (yError ctx) H (r - 1) ?yj"
    let ?c1 = "ctx\<lparr>yError := rebalance r ?yj ?lo ?hi (yError ctx)\<rparr>"
    note f = updateLines_row[OF res False]
    have yjH: "?yj < H" using p(2) ly by simp
    note e = expand_in_bounds[OF yjH, of "yError ctx" "r - 1"]
    have z: "yError ?c1 ! ?yj = 0" using rebalance_props(1)[OF p(2) by', where r = r] ly by simp
    note sc = scan_row_centers[OF f le_refl e(3) e(4) assms(2) z]
    have rel: "yError ctx' ! ?yj = 0" "xError ctx' = xError ctx" using sc z by (simp_all add: scan_rel_def)
    show ?thesis using False sc rel by (simp add: channel_def blend_alpha_center)
  qed
  show "\<not> ed \<Longrightarrow> data ctx' = data ctx" using main by simp
  show "if fst (worst (yError ctx) H) < fst (worst (xError ctx) W)
        then (let i = snd (worst (xError ctx) W)
              in \<forall>j<H. yError ctx ! j = 0 \<longrightarrow>
                   blend_alpha (xError ctx' ! i) (yError ctx' ! j) (xError ctx ! i) = 256 \<and>
                   (\<forall>c<3. channel (pixels ctx') W i j c =
                             data ctx' ! (pos ctx + 3 * exact_before (yError ctx) j + c)) \<and>
                   (ed \<longrightarrow> (\<forall>c<3. channel (pixels ctx') W i j c =
                             fdata pic ! (j * linesize pic + i * 4 + c))))
        else (let j = snd (worst (yError ctx) H)
              in \<forall>i<W. xError ctx ! i = 0 \<longrightarrow>
                   blend_alpha (xError ctx' ! i) (yError ctx' ! j) (yError ctx ! j) = 256 \<and>
                   (\<forall>c<3. channel (pixels ctx') W i j c =
                             data ctx' ! (pos ctx + 3 * exact_before (xError ctx) i + c)) \<and>
                   (ed \<longrightarrow> (\<forall>c<3. channel (pixels ctx') W i j c =
                             fdata pic ! (j * linesize pic + i * 4 + c))))"
    using main unfolding Let_def by (rule conjunct2)
qed


lemma ex1_ctx_ok: "ctx_ok 1 1 ex1_ctx"
  by (simp add: ctx_ok_def ex1_ctx_def)

lemma ex1_ctx_step:
  "updateLines ex1_ctx 1 1 ex1_pic 1 False =
     Inr (True, ex1_ctx\<lparr>xError := [0], pixels := [10, 20, 30, 0], pos := 9\<rparr>)"
  by code_simp

theorem center_pixel_identity_witness:
  "ctx_ok 1 1 ex1_ctx \<and> (0::nat) < 1 \<and>
   updateLines ex1_ctx 1 1 ex1_pic 1 False =
     Inr (True, ex1_ctx\<lparr>xError := [0], pixels := [10, 20, 30, 0], pos := 9\<rparr>) \<and>
   updateLines ex1_ctx 1 1 ex1_pic 1 False \<noteq> Inl AssertFailed \<and>
   channel (pixels (ex1_ctx\<lparr>xError := [0], pixels := [10, 20, 30, 0], pos := 9\<rparr>)) 1 0 0 0 =
     data ex1_ctx ! (6 + 0) \<and>
   channel (pixels (ex1_ctx\<lparr>xError := [0], pixels := [10, 20, 30, 0], pos := 9\<rparr>)) 1 0 0 2 =
     data ex1_ctx ! (6 + 2)"
proof -
  have r: "(0::nat) < 1" by simp
  have w: "worst (xError ex1_ctx) 1 = (321, 0)" "worst (yError ex1_ctx) 1 = (0, 0)"
    by (simp_all add: worst_def ex1_ctx_def)
  note t = center_pixel_identity[OF ex1_ctx_ok r, of ex1_pic False, unfolded w Let_def fst_conv snd_conv]
  have na: "updateLines ex1_ctx 1 1 ex1_pic 1 False \<noteq> Inl AssertFailed" using t by blast
  have y0: "yError ex1_ctx ! 0 = 0" "pos ex1_ctx = 6" "exact_before (yError ex1_ctx) 0 = 0"
    by (simp_all add: ex1_ctx_def exact_before_def)
  have c: "\<forall>c<3. channel (pixels (ex1_ctx\<lparr>xError := [0], pixels := [10, 20, 30, 0], pos := 9\<rparr>)) 1 0 0 c =
             data (ex1_ctx\<lparr>xError := [0], pixels := [10, 20, 30, 0], pos := 9\<rparr>) ! (6 + 3 * 0 + c)"
    using t ex1_ctx_step y0 by simp
  from c[rule_format, of 0] c[rule_format, of 2]
  show ?thesis using ex1_ctx_ok ex1_ctx_step na by simp
qed

text \<open>
  The positive radius is needed. The decoder passes the header's radius byte to the engine
  unchecked, and the encoder stores \<^verbatim>\<open>ctx->radius\<close> in that byte, so a radius of 0 reaches
  the engine (from a packet, or from an encoder opened with radius 256). Then
  \<^verbatim>\<open>fillAlpha\<close> is NaN, the test \<^verbatim>\<open>fillAlpha > 0\<close> fails at the cross point as well, and the
  iteration consumes the sample \<open>(10, 20, 30)\<close> and leaves the pixel gray.
\<close>

theorem center_pixel_unpainted_radius_0:
  "ctx_ok 1 1 ex1_ctx \<and> yError ex1_ctx ! 0 = 0 \<and>
   updateLines ex1_ctx 1 1 ex1_pic 0 False = Inr (True, ex1_ctx\<lparr>xError := [0], pos := 9\<rparr>) \<and>
   channel (pixels (ex1_ctx\<lparr>xError := [0], pos := 9\<rparr>)) 1 0 0 0 = 0x7f \<and>
   data (ex1_ctx\<lparr>xError := [0], pos := 9\<rparr>) ! 6 = 10"
proof -
  have s: "updateLines ex1_ctx 1 1 ex1_pic 0 False = Inr (True, ex1_ctx\<lparr>xError := [0], pos := 9\<rparr>)"
    by code_simp
  show ?thesis using ex1_ctx_ok s by (simp add: ex1_ctx_def channel_def)
qed

subsection \<open>Encoder and decoder in lock step\<close>

lemma foldE_sim:
  assumes "foldE f s xs = Inr s'" "R s t"
    and "\<And>x s t s'. x \<in> set xs \<Longrightarrow> R s t \<Longrightarrow> f s x = Inr s' \<Longrightarrow> \<exists>t'. g t x = Inr t' \<and> R s' t'"
  shows "\<exists>t'. foldE g t xs = Inr t' \<and> R s' t'"
  using assms
proof (induction xs arbitrary: s t)
  case Nil
  then show ?case by auto
next
  case (Cons x xs)
  from Cons.prems(1) obtain s1 where s1: "f s x = Inr s1" "foldE f s1 xs = Inr s'"
    by (auto split: sum.splits)
  obtain t1 where t1: "g t x = Inr t1" "R s1 t1" using Cons.prems(3)[of x s t s1] Cons.prems(2) s1(1) by auto
  have "\<exists>t'. foldE g t1 xs = Inr t' \<and> R s' t'"
    by (rule Cons.IH[OF s1(2) t1(2)]) (use Cons.prems(3) in auto)
  then show ?case using t1(1) by simp
qed

lemma splat_pixel_view:
  assumes "splat_pixel W r m i j src e c = Inr e'" "same_view e d"
  shows "\<exists>d'. splat_pixel W r m i j src d c = Inr d' \<and> same_view e' d' \<and> data d' = data d \<and> size' d' = size' d"
  using assms
  by (auto simp: splat_pixel_def same_view_def Let_def split: prod.splits if_splits)

lemma splat_fold_view:
  assumes "foldE (splat_pixel W r m i j src) e cells = Inr e'" "same_view e d"
  shows "\<exists>d'. foldE (splat_pixel W r m i j src) d cells = Inr d' \<and> same_view e' d' \<and> data d' = data d \<and> size' d' = size' d"
proof -
  have "\<exists>d'. foldE (splat_pixel W r m i j src) d cells = Inr d' \<and>
         (same_view e' d' \<and> data d' = data d \<and> size' d' = size' d)"
  proof (rule foldE_sim[OF assms(1), where R = "\<lambda>a b. same_view a b \<and> data b = data d \<and> size' b = size' d"])
    show "same_view e d \<and> data d = data d \<and> size' d = size' d" using assms(2) by simp
  next
    fix x s t s'
    assume "x \<in> set cells" and R: "same_view s t \<and> data t = data d \<and> size' t = size' d"
      and st: "splat_pixel W r m i j src s x = Inr s'"
    obtain t' where "splat_pixel W r m i j src t x = Inr t'" "same_view s' t'" "data t' = data t" "size' t' = size' t"
      using splat_pixel_view[OF st] R by blast
    then show "\<exists>t'. splat_pixel W r m i j src t x = Inr t' \<and> (same_view s' t' \<and> data t' = data d \<and> size' t' = size' d)"
      using R by auto
  qed
  then show ?thesis by blast
qed

lemma read_sample_view:
  assumes rs: "read_sample e pic True i j = Inr (src, e1)" and v: "same_view e d"
    and st: "\<forall>c<3. data d ! (pos e + c) = data e1 ! (pos e + c)" and len: "pos e + 3 \<le> length (data d)"
  shows "\<exists>d1. read_sample d pic' False i j = Inr (src, d1) \<and> same_view e1 d1 \<and> data d1 = data d \<and> size' d1 = size' d"
proof -
  obtain sR sG sB where src: "src = (sR, sG, sB)" by (cases src)
  note rd = read_sample_data[OF rs[unfolded src]] and rr = read_sample_rel[OF rs]
  have "data d ! pos e = sR" "data d ! (pos e + 1) = sG" "data d ! (pos e + 2) = sB"
    using st[rule_format, of 0] st[rule_format, of 1] st[rule_format, of 2] rd by simp_all
  then show ?thesis using v len rr src
    by (simp add: read_sample_def same_view_def scan_rel_def)
qed

lemma cross_col_stream:
  assumes "cross_col W H pic r ed i lo hi m s j = Inr s'"
  shows "scan_rel s s' \<and> (\<forall>k<pos s. data s' ! k = data s ! k)"
proof (cases "yError s ! j = 0")
  case True
  then obtain src c1 where rs: "read_sample s pic ed i j = Inr (src, c1)"
    and f: "foldE (splat_pixel W r m i j src) c1
              (cells_col lo hi (expand_min (yError c1) (r - 1) j) (expand_max (yError c1) H (r - 1) j)) = Inr s'"
    using assms by (auto simp: cross_col_def Let_def split: sum.splits)
  obtain sR sG sB where src: "src = (sR, sG, sB)" by (cases src)
  show ?thesis using read_sample_data[OF rs[unfolded src]] splat_fold_rel[OF f] cross_col_rel[OF assms]
    by simp
next
  case False
  then show ?thesis using assms by (simp add: cross_col_def)
qed

lemma cross_row_stream:
  assumes "cross_row W H pic r ed j lo hi m s i = Inr s'"
  shows "scan_rel s s' \<and> (\<forall>k<pos s. data s' ! k = data s ! k)"
proof (cases "xError s ! i = 0")
  case True
  then obtain src c1 where rs: "read_sample s pic ed i j = Inr (src, c1)"
    and f: "foldE (splat_pixel W r m i j src) c1
              (cells_row (expand_min (xError c1) (r - 1) i) (expand_max (xError c1) W (r - 1) i) lo hi) = Inr s'"
    using assms by (auto simp: cross_row_def Let_def split: sum.splits)
  obtain sR sG sB where src: "src = (sR, sG, sB)" by (cases src)
  show ?thesis using read_sample_data[OF rs[unfolded src]] splat_fold_rel[OF f] cross_row_rel[OF assms]
    by simp
next
  case False
  then show ?thesis using assms by (simp add: cross_row_def)
qed

lemma stream_trans:
  assumes "scan_rel a b \<and> (\<forall>k<pos a. data b ! k = data a ! k)"
    and "scan_rel b c \<and> (\<forall>k<pos b. data c ! k = data b ! k)"
  shows "scan_rel a c \<and> (\<forall>k<pos a. data c ! k = data a ! k)"
  using assms by (auto simp: scan_rel_def)

lemma scan_col_stream:
  assumes "foldE (cross_col W H pic r ed i lo hi m) s js = Inr s'"
  shows "scan_rel s s' \<and> (\<forall>k<pos s. data s' ! k = data s ! k)"
proof (rule foldE_inv[OF assms, where P = "\<lambda>t. scan_rel s t \<and> (\<forall>k<pos s. data t ! k = data s ! k)"])
  show "scan_rel s s \<and> (\<forall>k<pos s. data s ! k = data s ! k)" by simp
next
  fix t x t' assume "x \<in> set js" and t: "scan_rel s t \<and> (\<forall>k<pos s. data t ! k = data s ! k)"
    and st: "cross_col W H pic r ed i lo hi m t x = Inr t'"
  show "scan_rel s t' \<and> (\<forall>k<pos s. data t' ! k = data s ! k)"
    by (rule stream_trans[OF t cross_col_stream[OF st]])
qed

lemma scan_row_stream:
  assumes "foldE (cross_row W H pic r ed j lo hi m) s is = Inr s'"
  shows "scan_rel s s' \<and> (\<forall>k<pos s. data s' ! k = data s ! k)"
proof (rule foldE_inv[OF assms, where P = "\<lambda>t. scan_rel s t \<and> (\<forall>k<pos s. data t ! k = data s ! k)"])
  show "scan_rel s s \<and> (\<forall>k<pos s. data s ! k = data s ! k)" by simp
next
  fix t x t' assume "x \<in> set is" and t: "scan_rel s t \<and> (\<forall>k<pos s. data t ! k = data s ! k)"
    and st: "cross_row W H pic r ed j lo hi m t x = Inr t'"
  show "scan_rel s t' \<and> (\<forall>k<pos s. data t' ! k = data s ! k)"
    by (rule stream_trans[OF t cross_row_stream[OF st]])
qed

lemma cross_col_view:
  assumes st: "cross_col W H pic r True i lo hi m e j = Inr e1" and v: "same_view e d"
    and agree: "\<forall>k. pos e \<le> k \<and> k < pos e1 \<longrightarrow> data d ! k = data e1 ! k"
    and len: "pos e1 \<le> length (data d)"
  shows "\<exists>d1. cross_col W H pic' r False i lo hi m d j = Inr d1 \<and> same_view e1 d1 \<and>
              data d1 = data d \<and> size' d1 = size' d"
proof (cases "yError e ! j = 0")
  case False
  then have "e1 = e" using st by (simp add: cross_col_def)
  then show ?thesis using False v by (simp add: cross_col_def same_view_def)
next
  case True
  obtain src c1 where rs: "read_sample e pic True i j = Inr (src, c1)"
    and fs: "foldE (splat_pixel W r m i j src) c1
              (cells_col lo hi (expand_min (yError c1) (r - 1) j) (expand_max (yError c1) H (r - 1) j)) = Inr e1"
    using st True by (auto simp: cross_col_def Let_def split: sum.splits)
  note rr = read_sample_rel[OF rs] and fr = splat_fold_rel[OF fs]
  have p1: "pos e1 = pos e + 3" using rr fr by simp
  have "\<forall>c<3. data d ! (pos e + c) = data c1 ! (pos e + c)" using agree p1 fr by simp
  moreover have "pos e + 3 \<le> length (data d)" using len p1 by simp
  ultimately obtain d0 where d0: "read_sample d pic' False i j = Inr (src, d0)" "same_view c1 d0"
      "data d0 = data d" "size' d0 = size' d"
    using read_sample_view[OF rs v] by blast
  have y: "yError d0 = yError c1" using d0(2) by (simp add: same_view_def)
  obtain d1 where "foldE (splat_pixel W r m i j src) d0
              (cells_col lo hi (expand_min (yError c1) (r - 1) j) (expand_max (yError c1) H (r - 1) j)) = Inr d1"
      "same_view e1 d1" "data d1 = data d0" "size' d1 = size' d0"
    using splat_fold_view[OF fs d0(2)] by blast
  then show ?thesis using d0 True v y by (simp add: cross_col_def Let_def same_view_def)
qed

lemma cross_row_view:
  assumes st: "cross_row W H pic r True j lo hi m e i = Inr e1" and v: "same_view e d"
    and agree: "\<forall>k. pos e \<le> k \<and> k < pos e1 \<longrightarrow> data d ! k = data e1 ! k"
    and len: "pos e1 \<le> length (data d)"
  shows "\<exists>d1. cross_row W H pic' r False j lo hi m d i = Inr d1 \<and> same_view e1 d1 \<and>
              data d1 = data d \<and> size' d1 = size' d"
proof (cases "xError e ! i = 0")
  case False
  then have "e1 = e" using st by (simp add: cross_row_def)
  then show ?thesis using False v by (simp add: cross_row_def same_view_def)
next
  case True
  obtain src c1 where rs: "read_sample e pic True i j = Inr (src, c1)"
    and fs: "foldE (splat_pixel W r m i j src) c1
              (cells_row (expand_min (xError c1) (r - 1) i) (expand_max (xError c1) W (r - 1) i) lo hi) = Inr e1"
    using st True by (auto simp: cross_row_def Let_def split: sum.splits)
  note rr = read_sample_rel[OF rs] and fr = splat_fold_rel[OF fs]
  have p1: "pos e1 = pos e + 3" using rr fr by simp
  have "\<forall>c<3. data d ! (pos e + c) = data c1 ! (pos e + c)" using agree p1 fr by simp
  moreover have "pos e + 3 \<le> length (data d)" using len p1 by simp
  ultimately obtain d0 where d0: "read_sample d pic' False i j = Inr (src, d0)" "same_view c1 d0"
      "data d0 = data d" "size' d0 = size' d"
    using read_sample_view[OF rs v] by blast
  have x: "xError d0 = xError c1" using d0(2) by (simp add: same_view_def)
  obtain d1 where "foldE (splat_pixel W r m i j src) d0
              (cells_row (expand_min (xError c1) (r - 1) i) (expand_max (xError c1) W (r - 1) i) lo hi) = Inr d1"
      "same_view e1 d1" "data d1 = data d0" "size' d1 = size' d0"
    using splat_fold_view[OF fs d0(2)] by blast
  then show ?thesis using d0 True v x by (simp add: cross_row_def Let_def same_view_def)
qed

lemma scan_col_view:
  assumes "foldE (cross_col W H pic r True i lo hi m) e js = Inr e'" and "same_view e d"
    and "\<forall>k. pos e \<le> k \<and> k < pos e' \<longrightarrow> data d ! k = data e' ! k" and "pos e' \<le> length (data d)"
  shows "\<exists>d'. foldE (cross_col W H pic' r False i lo hi m) d js = Inr d' \<and> same_view e' d' \<and>
              data d' = data d \<and> size' d' = size' d"
  using assms
proof (induction js arbitrary: e d)
  case Nil
  then show ?case by simp
next
  case (Cons j js)
  obtain e1 where e1: "cross_col W H pic r True i lo hi m e j = Inr e1"
    and f: "foldE (cross_col W H pic r True i lo hi m) e1 js = Inr e'"
    using Cons.prems(1) by (auto split: sum.splits)
  note s1 = cross_col_stream[OF e1] and s2 = scan_col_stream[OF f]
  have p: "pos e \<le> pos e1" "pos e1 \<le> pos e'" using s1 s2 by (simp_all add: scan_rel_def)
  have a1: "\<forall>k. pos e \<le> k \<and> k < pos e1 \<longrightarrow> data d ! k = data e1 ! k"
    using Cons.prems(3) s2 p by auto
  have l1: "pos e1 \<le> length (data d)" using Cons.prems(4) p by simp
  obtain d1 where d1: "cross_col W H pic' r False i lo hi m d j = Inr d1" "same_view e1 d1"
      "data d1 = data d" "size' d1 = size' d"
    using cross_col_view[OF e1 Cons.prems(2) a1 l1] by blast
  have a2: "\<forall>k. pos e1 \<le> k \<and> k < pos e' \<longrightarrow> data d1 ! k = data e' ! k"
    using Cons.prems(3) p d1(3) by auto
  have l2: "pos e' \<le> length (data d1)" using Cons.prems(4) d1(3) by simp
  obtain d' where "foldE (cross_col W H pic' r False i lo hi m) d1 js = Inr d'" "same_view e' d'"
      "data d' = data d1" "size' d' = size' d1"
    using Cons.IH[OF f d1(2) a2 l2] by blast
  then show ?case using d1 by simp
qed

lemma scan_row_view:
  assumes "foldE (cross_row W H pic r True j lo hi m) e is = Inr e'" and "same_view e d"
    and "\<forall>k. pos e \<le> k \<and> k < pos e' \<longrightarrow> data d ! k = data e' ! k" and "pos e' \<le> length (data d)"
  shows "\<exists>d'. foldE (cross_row W H pic' r False j lo hi m) d is = Inr d' \<and> same_view e' d' \<and>
              data d' = data d \<and> size' d' = size' d"
  using assms
proof (induction "is" arbitrary: e d)
  case Nil
  then show ?case by simp
next
  case (Cons i "is")
  obtain e1 where e1: "cross_row W H pic r True j lo hi m e i = Inr e1"
    and f: "foldE (cross_row W H pic r True j lo hi m) e1 is = Inr e'"
    using Cons.prems(1) by (auto split: sum.splits)
  note s1 = cross_row_stream[OF e1] and s2 = scan_row_stream[OF f]
  have p: "pos e \<le> pos e1" "pos e1 \<le> pos e'" using s1 s2 by (simp_all add: scan_rel_def)
  have a1: "\<forall>k. pos e \<le> k \<and> k < pos e1 \<longrightarrow> data d ! k = data e1 ! k"
    using Cons.prems(3) s2 p by auto
  have l1: "pos e1 \<le> length (data d)" using Cons.prems(4) p by simp
  obtain d1 where d1: "cross_row W H pic' r False j lo hi m d i = Inr d1" "same_view e1 d1"
      "data d1 = data d" "size' d1 = size' d"
    using cross_row_view[OF e1 Cons.prems(2) a1 l1] by blast
  have a2: "\<forall>k. pos e1 \<le> k \<and> k < pos e' \<longrightarrow> data d1 ! k = data e' ! k"
    using Cons.prems(3) p d1(3) by auto
  have l2: "pos e' \<le> length (data d1)" using Cons.prems(4) d1(3) by simp
  obtain d' where "foldE (cross_row W H pic' r False j lo hi m) d1 is = Inr d'" "same_view e' d'"
      "data d' = data d1" "size' d' = size' d1"
    using Cons.IH[OF f d1(2) a2 l2] by blast
  then show ?case using d1 by simp
qed

text \<open>One iteration: the decoder, fed the bytes the encoder wrote, ends in the same view.\<close>

lemma updateLines_view:
  assumes res: "updateLines e W H pic r True = Inr (b, e')" and v: "same_view e d"
    and agree: "\<forall>k. pos e \<le> k \<and> k < pos e' \<longrightarrow> data d ! k = data e' ! k"
    and len: "pos e' \<le> length (data d)"
  shows "\<exists>d'. updateLines d W H pic' r False = Inr (b, d') \<and> same_view e' d' \<and>
              data d' = data d \<and> size' d' = size' d"
proof -
  obtain wx xi where wx: "worst (xError e) W = (wx, xi)" by (cases "worst (xError e) W")
  obtain wy yj where wy: "worst (yError e) H = (wy, yj)" by (cases "worst (yError e) H")
  have xd: "xError d = xError e" and yd: "yError d = yError e" using v by (simp_all add: same_view_def)
  consider "wx + wy = 0" | "wx + wy \<noteq> 0" "wy < wx" | "wx + wy \<noteq> 0" "\<not> wy < wx" by blast
  then show ?thesis
  proof cases
    case 1
    then have "b = False" "e' = e" using res wx wy by (simp_all add: updateLines_def)
    then show ?thesis using 1 v wx wy xd yd by (simp add: updateLines_def)
  next
    case 2
    let ?lo = "expand_min (xError e) (r - 1) xi" and ?hi = "expand_max (xError e) W (r - 1) xi"
    let ?e1 = "e\<lparr>xError := rebalance r xi ?lo ?hi (xError e)\<rparr>"
    let ?d1 = "d\<lparr>xError := rebalance r xi ?lo ?hi (xError e)\<rparr>"
    have f: "foldE (cross_col W H pic r True xi ?lo ?hi (xError e ! xi)) ?e1 [0..<H] = Inr e'" and b: "b"
      using res 2 wx wy by (auto simp: updateLines_def Let_def split: sum.splits)
    have v1: "same_view ?e1 ?d1" using v by (simp add: same_view_def)
    have a1: "\<forall>k. pos ?e1 \<le> k \<and> k < pos e' \<longrightarrow> data ?d1 ! k = data e' ! k" using agree by simp
    have l1: "pos e' \<le> length (data ?d1)" using len by simp
    obtain d' where "foldE (cross_col W H pic' r False xi ?lo ?hi (xError e ! xi)) ?d1 [0..<H] = Inr d'"
        "same_view e' d'" "data d' = data ?d1" "size' d' = size' ?d1"
      using scan_col_view[OF f v1 a1 l1] by blast
    then show ?thesis using 2 b wx wy xd yd by (simp add: updateLines_def Let_def)
  next
    case 3
    let ?lo = "expand_min (yError e) (r - 1) yj" and ?hi = "expand_max (yError e) H (r - 1) yj"
    let ?e1 = "e\<lparr>yError := rebalance r yj ?lo ?hi (yError e)\<rparr>"
    let ?d1 = "d\<lparr>yError := rebalance r yj ?lo ?hi (yError e)\<rparr>"
    have f: "foldE (cross_row W H pic r True yj ?lo ?hi (yError e ! yj)) ?e1 [0..<W] = Inr e'" and b: "b"
      using res 3 wx wy by (auto simp: updateLines_def Let_def split: sum.splits)
    have v1: "same_view ?e1 ?d1" using v by (simp add: same_view_def)
    have a1: "\<forall>k. pos ?e1 \<le> k \<and> k < pos e' \<longrightarrow> data ?d1 ! k = data e' ! k" using agree by simp
    have l1: "pos e' \<le> length (data ?d1)" using len by simp
    obtain d' where "foldE (cross_row W H pic' r False yj ?lo ?hi (yError e ! yj)) ?d1 [0..<W] = Inr d'"
        "same_view e' d'" "data d' = data ?d1" "size' d' = size' ?d1"
      using scan_row_view[OF f v1 a1 l1] by blast
    then show ?thesis using 3 b wx wy xd yd by (simp add: updateLines_def Let_def)
  qed
qed

text \<open>What one iteration does to the stream, and when it leaves the canvas alone.\<close>

lemma updateLines_stream:
  assumes "updateLines e W H pic r ed = Inr (b, e')"
  shows "pos e \<le> pos e'" "\<forall>k<pos e. data e' ! k = data e ! k" "length (data e') = length (data e)"
    "radius e' = radius e" "size' e' = size' e" "numPixels e \<le> numPixels e'"
proof -
  obtain wx xi where wx: "worst (xError e) W = (wx, xi)" by (cases "worst (xError e) W")
  obtain wy yj where wy: "worst (yError e) H = (wy, yj)" by (cases "worst (yError e) H")
  have "pos e \<le> pos e' \<and> (\<forall>k<pos e. data e' ! k = data e ! k) \<and> length (data e') = length (data e) \<and>
        radius e' = radius e \<and> size' e' = size' e \<and> numPixels e \<le> numPixels e'"
    using assms wx wy
    by (auto simp: updateLines_def Let_def scan_rel_def split: sum.splits if_splits
             dest!: scan_col_stream scan_row_stream)
  then show "pos e \<le> pos e'" "\<forall>k<pos e. data e' ! k = data e ! k" "length (data e') = length (data e)"
    "radius e' = radius e" "size' e' = size' e" "numPixels e \<le> numPixels e'"
    by simp_all
qed

subsection \<open>The two loops\<close>

lemma scan_col_idle:
  assumes "foldE (cross_col W H pic r ed i lo hi m) s js = Inr t"
  shows "pos s \<le> pos t \<and> (pos t = pos s \<longrightarrow> t = s)"
proof (rule foldE_inv[OF assms, where P = "\<lambda>u. pos s \<le> pos u \<and> (pos u = pos s \<longrightarrow> u = s)"])
  show "pos s \<le> pos s \<and> (pos s = pos s \<longrightarrow> s = s)" by simp
next
  fix u x u' assume "x \<in> set js" and u: "pos s \<le> pos u \<and> (pos u = pos s \<longrightarrow> u = s)"
    and st: "cross_col W H pic r ed i lo hi m u x = Inr u'"
  show "pos s \<le> pos u' \<and> (pos u' = pos s \<longrightarrow> u' = s)"
    using cross_col_rel[OF st] u by (auto simp: scan_rel_def split: if_splits)
qed

lemma scan_row_idle:
  assumes "foldE (cross_row W H pic r ed j lo hi m) s is = Inr t"
  shows "pos s \<le> pos t \<and> (pos t = pos s \<longrightarrow> t = s)"
proof (rule foldE_inv[OF assms, where P = "\<lambda>u. pos s \<le> pos u \<and> (pos u = pos s \<longrightarrow> u = s)"])
  show "pos s \<le> pos s \<and> (pos s = pos s \<longrightarrow> s = s)" by simp
next
  fix u x u' assume "x \<in> set is" and u: "pos s \<le> pos u \<and> (pos u = pos s \<longrightarrow> u = s)"
    and st: "cross_row W H pic r ed j lo hi m u x = Inr u'"
  show "pos s \<le> pos u' \<and> (pos u' = pos s \<longrightarrow> u' = s)"
    using cross_row_rel[OF st] u by (auto simp: scan_rel_def split: if_splits)
qed

lemma updateLines_idle:
  assumes "updateLines e W H pic r ed = Inr (b, e')" and "pos e' = pos e"
  shows "pixels e' = pixels e \<and> data e' = data e \<and> numPixels e' = numPixels e"
proof -
  obtain wx xi where wx: "worst (xError e) W = (wx, xi)" by (cases "worst (xError e) W")
  obtain wy yj where wy: "worst (yError e) H = (wy, yj)" by (cases "worst (yError e) H")
  show ?thesis using assms wx wy
    by (auto simp: updateLines_def Let_def split: sum.splits if_splits
             dest!: scan_col_idle scan_row_idle)
qed

lemma updateLines_False:
  assumes "updateLines e W H pic r ed = Inr (False, e')"
  shows "e' = e"
  using updateLines_cases[OF assms] by simp

lemma encode_loop_run:
  assumes "encode_loop W H pic mp e = Some y"
  shows "\<forall>e5. y = Inr e5 \<longrightarrow> enc_run W H pic mp e e5"
proof (rule encode_loop.raw_induct[where P = "\<lambda>W H pic mp e y. \<forall>e5. y = Inr e5 \<longrightarrow> enc_run W H pic mp e e5",
        OF _ assms])
  fix f :: "nat \<Rightarrow> nat \<Rightarrow> AVFrame \<Rightarrow> int \<Rightarrow> SplashContext \<Rightarrow> (fault + SplashContext) option"
    and W H pic mp e y
  assume IH: "\<And>W H pic mp e y. f W H pic mp e = Some y \<Longrightarrow> \<forall>e5. y = Inr e5 \<longrightarrow> enc_run W H pic mp e e5"
    and body: "(case updateLines e W H pic (radius e) True of
                  Inl e \<Rightarrow> Some (Inl e)
                | Inr (b, ctx') \<Rightarrow>
                    if b then (if int (numPixels ctx') < mp then f W H pic mp ctx' else Some (Inr ctx'))
                    else Some (Inr ctx')) = Some y"
  show "\<forall>e5. y = Inr e5 \<longrightarrow> enc_run W H pic mp e e5"
  proof (intro allI impI)
    fix e5 assume y: "y = Inr e5"
    show "enc_run W H pic mp e e5"
    proof (cases "updateLines e W H pic (radius e) True")
      case (Inl a)
      then show ?thesis using body y by simp
    next
      case (Inr p)
      obtain b e' where p: "p = (b, e')" by (cases p)
      show ?thesis
      proof (cases b)
        case False
        then show ?thesis using body y Inr p by (auto intro: enc_run.stop_idle)
      next
        case True
        show ?thesis
        proof (cases "int (numPixels e') < mp")
          case False
          then show ?thesis using body y Inr p True by (auto intro: enc_run.stop_budget)
        next
          case lt: True
          then have "f W H pic mp e' = Some (Inr e5)" using body y Inr p True by simp
          then have "enc_run W H pic mp e' e5" using IH by blast
          then show ?thesis using Inr p True lt by (auto intro: enc_run.again)
        qed
      qed
    qed
  qed
qed

lemma enc_run_stream:
  assumes "enc_run W H pic mp e e5"
  shows "pos e \<le> pos e5 \<and> (\<forall>k<pos e. data e5 ! k = data e ! k) \<and> length (data e5) = length (data e) \<and>
         radius e5 = radius e \<and> (pos e5 = pos e \<longrightarrow> pixels e5 = pixels e)"
  using assms
proof (induction rule: enc_run.induct)
  case (stop_idle e e')
  then show ?case using updateLines_False[OF stop_idle] by simp
next
  case (stop_budget e e')
  show ?case using updateLines_stream[OF stop_budget(1)] updateLines_idle[OF stop_budget(1)] by simp
next
  case (again e e' e5)
  note s = updateLines_stream[OF again(1)] and i = updateLines_idle[OF again(1)]
  show ?case using s i again.IH by auto
qed

lemma enc_run_ctx_ok:
  assumes "enc_run W H pic mp e e5" "ctx_ok W H e"
  shows "ctx_ok W H e5"
  using assms
proof (induction rule: enc_run.induct)
  case (stop_idle e e')
  then show ?case using updateLines_ctx_ok by blast
next
  case (stop_budget e e')
  then show ?case using updateLines_ctx_ok by blast
next
  case (again e e' e5)
  then show ?case using updateLines_ctx_ok by blast
qed

text \<open>
  The decoder's loop on the bytes of a finished encoder run: it ends, and with the
  canvas the encoder ended with.
\<close>

lemma enc_run_decode:
  assumes "enc_run W H pic mp e e5"
  shows "\<forall>d. same_view e d \<and> (\<forall>k. pos e \<le> k \<and> k < pos e5 \<longrightarrow> data d ! k = data e5 ! k) \<and>
             pos e5 \<le> length (data d) \<and> size' d = int (pos e5) \<longrightarrow>
           (\<exists>d'. decode_loop W H pic' (radius e) d = Some (Inr d') \<and> pixels d' = pixels e5 \<and>
                 data d' = data d \<and> size' d' = size' d)"
  using assms
proof (induction rule: enc_run.induct)
  case (stop_idle e e')
  show ?case
  proof (intro allI impI, elim conjE)
    fix d assume v: "same_view e d" and a: "\<forall>k. pos e \<le> k \<and> k < pos e' \<longrightarrow> data d ! k = data e' ! k"
      and l: "pos e' \<le> length (data d)" and sz: "size' d = int (pos e')"
    obtain d' where d': "updateLines d W H pic' (radius e) False = Inr (False, d')" "same_view e' d'"
        "data d' = data d" "size' d' = size' d"
      using updateLines_view[OF stop_idle v a l] by blast
    show "\<exists>d'. decode_loop W H pic' (radius e) d = Some (Inr d') \<and> pixels d' = pixels e' \<and>
                data d' = data d \<and> size' d' = size' d"
      using d' by (subst decode_loop.simps) (simp add: same_view_def)
  qed
next
  case (stop_budget e e')
  show ?case
  proof (intro allI impI, elim conjE)
    fix d assume v: "same_view e d" and a: "\<forall>k. pos e \<le> k \<and> k < pos e' \<longrightarrow> data d ! k = data e' ! k"
      and l: "pos e' \<le> length (data d)" and sz: "size' d = int (pos e')"
    obtain d' where d': "updateLines d W H pic' (radius e) False = Inr (True, d')" "same_view e' d'"
        "data d' = data d" "size' d' = size' d"
      using updateLines_view[OF stop_budget(1) v a l] by blast
    have "\<not> int (pos d') < size' d'" using d' sz by (simp add: same_view_def)
    then show "\<exists>d'. decode_loop W H pic' (radius e) d = Some (Inr d') \<and> pixels d' = pixels e' \<and>
                data d' = data d \<and> size' d' = size' d"
      using d' by (subst decode_loop.simps) (simp add: same_view_def)
  qed
next
  case (again e e' e5)
  note s1 = updateLines_stream[OF again(1)] and s2 = enc_run_stream[OF again(3)]
  show ?case
  proof (intro allI impI, elim conjE)
    fix d assume v: "same_view e d" and a: "\<forall>k. pos e \<le> k \<and> k < pos e5 \<longrightarrow> data d ! k = data e5 ! k"
      and l: "pos e5 \<le> length (data d)" and sz: "size' d = int (pos e5)"
    have a1: "\<forall>k. pos e \<le> k \<and> k < pos e' \<longrightarrow> data d ! k = data e' ! k" using a s2 by auto
    have l1: "pos e' \<le> length (data d)" using l s2 by simp
    obtain d' where d': "updateLines d W H pic' (radius e) False = Inr (True, d')" "same_view e' d'"
        "data d' = data d" "size' d' = size' d"
      using updateLines_view[OF again(1) v a1 l1] by blast
    have pd: "pos d' = pos e'" using d'(2) by (simp add: same_view_def)
    show "\<exists>d'. decode_loop W H pic' (radius e) d = Some (Inr d') \<and> pixels d' = pixels e5 \<and>
                data d' = data d \<and> size' d' = size' d"
    proof (cases "int (pos d') < size' d'")
      case True
      have a2: "\<forall>k. pos e' \<le> k \<and> k < pos e5 \<longrightarrow> data d' ! k = data e5 ! k" using a s1(1) d'(3) by auto
      have pre: "same_view e' d' \<and> (\<forall>k. pos e' \<le> k \<and> k < pos e5 \<longrightarrow> data d' ! k = data e5 ! k) \<and>
             pos e5 \<le> length (data d') \<and> size' d' = int (pos e5)"
        using d'(2) a2 l sz d'(3,4) by simp
      have "\<exists>d''. decode_loop W H pic' (radius e') d' = Some (Inr d'') \<and> pixels d'' = pixels e5 \<and>
                data d'' = data d' \<and> size' d'' = size' d'"
        by (rule again.IH[rule_format, OF pre])
      then show ?thesis using d' True s1(4) by (subst decode_loop.simps) simp
    next
      case False
      then have "pos e5 = pos e'" using s2 pd d'(4) sz by simp
      then have "pixels e5 = pixels e'" using s2 by simp
      then show ?thesis using d' False by (subst decode_loop.simps) (simp add: same_view_def)
    qed
  qed
qed

subsection \<open>The packet: rulers written and read back\<close>

lemma bit_lt_256:
  fixes a :: nat assumes "a < 256" "bit a n" shows "n < 8"
proof (rule ccontr)
  assume "\<not> n < 8"
  then have "(2::nat) ^ 8 \<le> 2 ^ n" by (intro power_increasing) auto
  then have "a < 2 ^ n" using assms(1) by simp
  then have "\<not> bit a n" by (simp add: bit_iff_odd)
  then show False using assms(2) by simp
qed

lemma le24_or_add:
  fixes a b c :: nat assumes "a < 256" "b < 256" "c < 256"
  shows "or (or a (push_bit 8 b)) (push_bit 16 c) = a + 256 * b + 65536 * c"
proof -
  have 1: "a + push_bit 8 b = or a (push_bit 8 b)"
    by (rule disjunctive_add) (use bit_lt_256[OF assms(1)] in \<open>fastforce simp: bit_push_bit_iff\<close>)
  have 2: "or a (push_bit 8 b) + push_bit 16 c = or (or a (push_bit 8 b)) (push_bit 16 c)"
    by (rule disjunctive_add)
       (use bit_lt_256[OF assms(1)] bit_lt_256[OF assms(2)] in \<open>fastforce simp: bit_push_bit_iff bit_or_iff\<close>)
  have "a + 256 * b + 65536 * c = a + push_bit 8 b + push_bit 16 c" by (simp add: push_bit_eq_mult)
  also have "\<dots> = or a (push_bit 8 b) + push_bit 16 c" by (simp only: 1)
  also have "\<dots> = or (or a (push_bit 8 b)) (push_bit 16 c)" by (rule 2)
  finally show ?thesis by simp
qed

lemma unat_byte_lt: "unat (w :: 8 word) < 256"
  using unsigned_less[of w, where 'a = nat] by simp

lemma unat_byte_of_int: "unat (word_of_int k :: 8 word) = nat (k mod 256)"
  by (simp add: unat_eq_nat_uint uint_word_of_int)

lemma get_le24_lt: "get_le24 d p < 2 ^ 24"
proof -
  note b = unat_byte_lt
  have "get_le24 d p = unat (d ! p) + 256 * unat (d ! (p + 1)) + 65536 * unat (d ! (p + 2))"
    unfolding get_le24_def by (rule le24_or_add[OF b b b])
  moreover have "unat (d ! p) < 256" "unat (d ! (p + 1)) < 256" "unat (d ! (p + 2)) < 256" by (rule b)+
  ultimately show ?thesis by simp
qed

lemma length_put_le24 [simp]: "length (put_le24 d p err) = length d"
  by (simp add: put_le24_def)

lemma put_le24_other: "k < p \<or> p + 3 \<le> k \<Longrightarrow> put_le24 d p err ! k = d ! k"
  by (auto simp: put_le24_def)

lemma get_put_le24:
  assumes "0 \<le> err" "err < 2 ^ 24" "p + 3 \<le> length d"
  shows "get_le24 (put_le24 d p err) p = nat err"
proof -
  note b = unat_byte_lt
  have n: "put_le24 d p err ! p = word_of_int err"
          "put_le24 d p err ! (p + 1) = word_of_int (drop_bit 8 err)"
          "put_le24 d p err ! (p + 2) = word_of_int (drop_bit 16 err)"
    using assms(3) by (simp_all add: put_le24_def)
  obtain m where m: "err = int m" using assms(1) by (metis nat_0_le)
  have m24: "m < 16777216" using assms(2) m by simp
  have "get_le24 (put_le24 d p err) p =
        nat (err mod 256) + 256 * nat ((err div 256) mod 256) + 65536 * nat ((err div 65536) mod 256)"
    unfolding get_le24_def n
    by (subst le24_or_add[OF b b b]) (simp add: unat_byte_of_int drop_bit_eq_div)
  also have "\<dots> = m mod 256 + 256 * ((m div 256) mod 256) + 65536 * ((m div 65536) mod 256)"
  proof -
    have "int m mod 256 = int (m mod 256)" "int m div 256 mod 256 = int (m div 256 mod 256)"
         "int m div 65536 mod 256 = int (m div 65536 mod 256)"
      by (simp_all add: zmod_int zdiv_int)
    then show ?thesis unfolding m by (simp only: nat_int)
  qed
  also have "\<dots> = m"
  proof -
    have a: "m mod 65536 = 256 * (m div 256 mod 256) + m mod 256"
      using mod_mult2_eq[of m 256 256] by simp
    have "m div 65536 < 256" using m24 less_mult_imp_div_less[of m 256 65536] by simp
    then have b: "m div 65536 mod 256 = m div 65536" by simp
    have c: "m = 65536 * (m div 65536) + m mod 65536" by simp
    show ?thesis unfolding b using a c by linarith
  qed
  finally show ?thesis using m by simp
qed

lemma get_le24_cong:
  assumes "d ! p = d' ! q" "d ! (p + 1) = d' ! (q + 1)" "d ! (p + 2) = d' ! (q + 2)"
  shows "get_le24 d p = get_le24 d' q"
  using assms by (simp add: get_le24_def)

lemma foldl_add_nonneg:
  fixes a :: int
  assumes "0 \<le> a" "\<And>x. 0 \<le> f x"
  shows "0 \<le> foldl (\<lambda>err j. err + f j) a xs"
  using assms(1)
proof (induction xs arbitrary: a)
  case Nil
  then show ?case by simp
next
  case (Cons x xs)
  have "0 \<le> a + f x" using Cons.prems assms(2)[of x] by simp
  then show ?case using Cons.IH by simp
qed

lemma pixel_error_nonneg: "0 \<le> pixel_error px pic W i j"
  by (simp add: pixel_error_def Let_def)

lemma clamp24_range: "0 \<le> s \<Longrightarrow> 0 \<le> clamp24 s \<and> clamp24 s < 2 ^ 24"
  by (simp add: clamp24_def)

lemma column_error_range: "0 \<le> column_error px pic W H i \<and> column_error px pic W H i < 2 ^ 24"
  unfolding column_error_def
  by (rule clamp24_range, rule foldl_add_nonneg) (simp_all add: pixel_error_nonneg)

lemma row_error_range: "0 \<le> row_error px pic W H j \<and> row_error px pic W H j < 2 ^ 24"
  unfolding row_error_def
  by (rule clamp24_range, rule foldl_add_nonneg) (simp_all add: pixel_error_nonneg)

lemma emit_x_fold:
  fixes c :: SplashContext and n :: nat and pic :: AVFrame and W H :: nat
  defines "step \<equiv> \<lambda>c i. let err = column_error (pixels c) pic W H i
                  in c\<lparr>xError := (xError c)[i := nat err],
                       data := put_le24 (data c) (pos c) err, pos := pos c + 3\<rparr>"
  defines "c' \<equiv> foldl step c [0..<n]"
  assumes "n \<le> length (xError c)" "pos c + 3 * n \<le> length (data c)"
  shows "pixels c' = pixels c \<and> yError c' = yError c \<and> radius c' = radius c \<and> size' c' = size' c \<and>
         pos c' = pos c + 3 * n \<and> length (xError c') = length (xError c) \<and>
         length (data c') = length (data c) \<and>
         (\<forall>i<n. xError c' ! i = nat (column_error (pixels c) pic W H i) \<and>
                get_le24 (data c') (pos c + 3 * i) = xError c' ! i) \<and>
         (\<forall>k<pos c. data c' ! k = data c ! k)"
  unfolding c'_def using assms(3,4)
proof (induction n)
  case 0
  then show ?case by simp
next
  case (Suc n)
  define c1 where "c1 = foldl step c [0..<n]"
  define err where "err = column_error (pixels c) pic W H n"
  have IH: "pixels c1 = pixels c" "yError c1 = yError c" "radius c1 = radius c" "size' c1 = size' c"
    "pos c1 = pos c + 3 * n" "length (xError c1) = length (xError c)" "length (data c1) = length (data c)"
    "\<forall>i<n. xError c1 ! i = nat (column_error (pixels c) pic W H i) \<and>
           get_le24 (data c1) (pos c + 3 * i) = xError c1 ! i"
    "\<forall>k<pos c. data c1 ! k = data c ! k"
    using Suc.IH Suc.prems unfolding c1_def by simp_all
  have st: "foldl step c [0..<Suc n] =
            c1\<lparr>xError := (xError c1)[n := nat err],
                data := put_le24 (data c1) (pos c + 3 * n) err, pos := pos c + 3 * n + 3\<rparr>"
  proof -
    have "foldl step c [0..<Suc n] = step c1 n" by (simp add: c1_def)
    also have "\<dots> = c1\<lparr>xError := (xError c1)[n := nat err],
                data := put_le24 (data c1) (pos c + 3 * n) err, pos := pos c + 3 * n + 3\<rparr>"
      by (simp add: step_def Let_def IH err_def)
    finally show ?thesis .
  qed
  have er: "0 \<le> err" "err < 2 ^ 24" using column_error_range[of "pixels c" pic W H n] by (simp_all add: err_def)
  have ln: "pos c + 3 * n + 3 \<le> length (data c1)" using Suc.prems IH by simp
  have nx: "n < length (xError c1)" using Suc.prems IH by simp
  have g: "get_le24 (put_le24 (data c1) (pos c + 3 * n) err) (pos c + 3 * i) = xError c1 ! i" if "i < n" for i
  proof -
    have "pos c + 3 * i + 2 < pos c + 3 * n" using that by simp
    then have "get_le24 (put_le24 (data c1) (pos c + 3 * n) err) (pos c + 3 * i) =
               get_le24 (data c1) (pos c + 3 * i)"
      by (intro get_le24_cong put_le24_other) simp_all
    then show ?thesis using IH(8) that by simp
  qed
  have final: "\<forall>i<Suc n. ((xError c1)[n := nat err]) ! i = nat (column_error (pixels c) pic W H i) \<and>
          get_le24 (put_le24 (data c1) (pos c + 3 * n) err) (pos c + 3 * i) = ((xError c1)[n := nat err]) ! i"
  proof (intro allI impI)
    fix i assume "i < Suc n"
    then consider "i < n" | "i = n" by linarith
    then show "((xError c1)[n := nat err]) ! i = nat (column_error (pixels c) pic W H i) \<and>
          get_le24 (put_le24 (data c1) (pos c + 3 * n) err) (pos c + 3 * i) = ((xError c1)[n := nat err]) ! i"
    proof cases
      case 1
      then show ?thesis using IH(8) g[OF 1] by simp
    next
      case 2
      then show ?thesis using get_put_le24[OF er ln] nx by (simp add: err_def)
    qed
  qed
  have low: "\<forall>k<pos c. put_le24 (data c1) (pos c + 3 * n) err ! k = data c ! k"
    using IH(9) by (simp add: put_le24_other)
  show ?case unfolding st using IH(1-7) final low by simp
qed

lemma emit_y_fold:
  fixes c :: SplashContext and n :: nat and pic :: AVFrame and W H :: nat
  defines "step \<equiv> \<lambda>c j. let err = row_error (pixels c) pic W H j
                  in c\<lparr>yError := (yError c)[j := nat err],
                       data := put_le24 (data c) (pos c) err, pos := pos c + 3\<rparr>"
  defines "c' \<equiv> foldl step c [0..<n]"
  assumes "n \<le> length (yError c)" "pos c + 3 * n \<le> length (data c)"
  shows "pixels c' = pixels c \<and> xError c' = xError c \<and> radius c' = radius c \<and> size' c' = size' c \<and>
         pos c' = pos c + 3 * n \<and> length (yError c') = length (yError c) \<and>
         length (data c') = length (data c) \<and>
         (\<forall>j<n. yError c' ! j = nat (row_error (pixels c) pic W H j) \<and>
                get_le24 (data c') (pos c + 3 * j) = yError c' ! j) \<and>
         (\<forall>k<pos c. data c' ! k = data c ! k)"
  unfolding c'_def using assms(3,4)
proof (induction n)
  case 0
  then show ?case by simp
next
  case (Suc n)
  define c1 where "c1 = foldl step c [0..<n]"
  define err where "err = row_error (pixels c) pic W H n"
  have IH: "pixels c1 = pixels c" "xError c1 = xError c" "radius c1 = radius c" "size' c1 = size' c"
    "pos c1 = pos c + 3 * n" "length (yError c1) = length (yError c)" "length (data c1) = length (data c)"
    "\<forall>j<n. yError c1 ! j = nat (row_error (pixels c) pic W H j) \<and>
           get_le24 (data c1) (pos c + 3 * j) = yError c1 ! j"
    "\<forall>k<pos c. data c1 ! k = data c ! k"
    using Suc.IH Suc.prems unfolding c1_def by simp_all
  have st: "foldl step c [0..<Suc n] =
            c1\<lparr>yError := (yError c1)[n := nat err],
                data := put_le24 (data c1) (pos c + 3 * n) err, pos := pos c + 3 * n + 3\<rparr>"
  proof -
    have "foldl step c [0..<Suc n] = step c1 n" by (simp add: c1_def)
    also have "\<dots> = c1\<lparr>yError := (yError c1)[n := nat err],
                data := put_le24 (data c1) (pos c + 3 * n) err, pos := pos c + 3 * n + 3\<rparr>"
      by (simp add: step_def Let_def IH err_def)
    finally show ?thesis .
  qed
  have er: "0 \<le> err" "err < 2 ^ 24" using row_error_range[of "pixels c" pic W H n] by (simp_all add: err_def)
  have ln: "pos c + 3 * n + 3 \<le> length (data c1)" using Suc.prems IH by simp
  have nx: "n < length (yError c1)" using Suc.prems IH by simp
  have g: "get_le24 (put_le24 (data c1) (pos c + 3 * n) err) (pos c + 3 * i) = yError c1 ! i" if "i < n" for i
  proof -
    have "pos c + 3 * i + 2 < pos c + 3 * n" using that by simp
    then have "get_le24 (put_le24 (data c1) (pos c + 3 * n) err) (pos c + 3 * i) =
               get_le24 (data c1) (pos c + 3 * i)"
      by (intro get_le24_cong put_le24_other) simp_all
    then show ?thesis using IH(8) that by simp
  qed
  have final: "\<forall>i<Suc n. ((yError c1)[n := nat err]) ! i = nat (row_error (pixels c) pic W H i) \<and>
          get_le24 (put_le24 (data c1) (pos c + 3 * n) err) (pos c + 3 * i) = ((yError c1)[n := nat err]) ! i"
  proof (intro allI impI)
    fix i assume "i < Suc n"
    then consider "i < n" | "i = n" by linarith
    then show "((yError c1)[n := nat err]) ! i = nat (row_error (pixels c) pic W H i) \<and>
          get_le24 (put_le24 (data c1) (pos c + 3 * n) err) (pos c + 3 * i) = ((yError c1)[n := nat err]) ! i"
    proof cases
      case 1
      then show ?thesis using IH(8) g[OF 1] by simp
    next
      case 2
      then show ?thesis using get_put_le24[OF er ln] nx by (simp add: err_def)
    qed
  qed
  have low: "\<forall>k<pos c. put_le24 (data c1) (pos c + 3 * n) err ! k = data c ! k"
    using IH(9) by (simp add: put_le24_other)
  show ?case unfolding st using IH(1-7) final low by simp
qed

subsection \<open>The export of the canvas\<close>

lemma export_pixel_nth:
  assumes "j * ls + i * 4 + 4 \<le> length fd"
  shows "length (export_pixel px W ls j fd i) = length fd"
    "export_pixel px W ls j fd i ! (j * ls + i * 4) = px ! ((j * W + i) * 4)"
    "export_pixel px W ls j fd i ! (j * ls + i * 4 + 1) = px ! ((j * W + i) * 4 + 1)"
    "export_pixel px W ls j fd i ! (j * ls + i * 4 + 2) = px ! ((j * W + i) * 4 + 2)"
    "export_pixel px W ls j fd i ! (j * ls + i * 4 + 3) = 255"
    "\<And>k. k < j * ls + i * 4 \<or> j * ls + i * 4 + 4 \<le> k \<Longrightarrow> export_pixel px W ls j fd i ! k = fd ! k"
  using assms by (auto simp: export_pixel_def Let_def)

lemma export_row:
  fixes n j ls W :: nat and fd px :: "byte list"
  defines "fd' \<equiv> foldl (export_pixel px W ls j) fd [0..<n]"
  assumes "j * ls + 4 * n \<le> length fd"
  shows "length fd' = length fd \<and>
         (\<forall>i<n. (\<forall>c<3. fd' ! (j * ls + i * 4 + c) = px ! ((j * W + i) * 4 + c)) \<and>
                fd' ! (j * ls + i * 4 + 3) = 255) \<and>
         (\<forall>k. k < j * ls \<or> j * ls + 4 * n \<le> k \<longrightarrow> fd' ! k = fd ! k)"
  unfolding fd'_def using assms(2)
proof (induction n)
  case 0
  then show ?case by simp
next
  case (Suc n)
  define f1 where "f1 = foldl (export_pixel px W ls j) fd [0..<n]"
  have IH: "length f1 = length fd"
    "\<forall>i<n. (\<forall>c<3. f1 ! (j * ls + i * 4 + c) = px ! ((j * W + i) * 4 + c)) \<and> f1 ! (j * ls + i * 4 + 3) = 255"
    "\<forall>k. k < j * ls \<or> j * ls + 4 * n \<le> k \<longrightarrow> f1 ! k = fd ! k"
    using Suc.IH Suc.prems unfolding f1_def by simp_all
  have st: "foldl (export_pixel px W ls j) fd [0..<Suc n] = export_pixel px W ls j f1 n"
    by (simp add: f1_def)
  have ln: "j * ls + n * 4 + 4 \<le> length f1" using Suc.prems IH(1) by simp
  note ep = export_pixel_nth[OF ln, where px = px and W = W]
  have cells: "(\<forall>c<3. export_pixel px W ls j f1 n ! (j * ls + i * 4 + c) = px ! ((j * W + i) * 4 + c)) \<and>
               export_pixel px W ls j f1 n ! (j * ls + i * 4 + 3) = 255" if iS: "i < Suc n" for i
  proof -
    consider "i < n" | "i = n" using iS by linarith
    then show ?thesis
    proof cases
      case 1
      have "export_pixel px W ls j f1 n ! (j * ls + i * 4 + c) = f1 ! (j * ls + i * 4 + c)" if c4: "c < 4" for c
        by (rule ep(6)) (use 1 c4 in simp)
      then show ?thesis using IH(2) 1 by simp
    next
      case 2
      have "export_pixel px W ls j f1 n ! (j * ls + n * 4 + c) = px ! ((j * W + n) * 4 + c)" if c3: "c < 3" for c
      proof -
        consider "c = 0" | "c = 1" | "c = 2" using c3 by linarith
        then show ?thesis using ep(2,3,4) by cases simp_all
      qed
      then show ?thesis using ep(5) 2 by simp
    qed
  qed
  have rest: "\<forall>k. k < j * ls \<or> j * ls + 4 * Suc n \<le> k \<longrightarrow> export_pixel px W ls j f1 n ! k = fd ! k"
  proof (intro allI impI)
    fix k assume k: "k < j * ls \<or> j * ls + 4 * Suc n \<le> k"
    have "export_pixel px W ls j f1 n ! k = f1 ! k" by (rule ep(6)) (use k in auto)
    then show "export_pixel px W ls j f1 n ! k = fd ! k" using IH(3) k by auto
  qed
  show ?case unfolding st using ep(1) IH(1) cells rest by simp
qed

lemma export_rows:
  fixes m ls W :: nat and fd px :: "byte list"
  defines "fd' \<equiv> foldl (\<lambda>fd j. foldl (export_pixel px W ls j) fd [0..<W]) fd [0..<m]"
  assumes "4 * W \<le> ls" "m * ls \<le> length fd"
  shows "length fd' = length fd \<and>
         (\<forall>j<m. \<forall>i<W. (\<forall>c<3. fd' ! (j * ls + i * 4 + c) = px ! ((j * W + i) * 4 + c)) \<and>
                fd' ! (j * ls + i * 4 + 3) = 255) \<and>
         (\<forall>k. m * ls \<le> k \<longrightarrow> fd' ! k = fd ! k)"
  unfolding fd'_def using assms(3)
proof (induction m)
  case 0
  then show ?case by simp
next
  case (Suc m)
  define f1 where "f1 = foldl (\<lambda>fd j. foldl (export_pixel px W ls j) fd [0..<W]) fd [0..<m]"
  define f2 where "f2 = foldl (export_pixel px W ls m) f1 [0..<W]"
  have ml: "m * ls \<le> length fd" using Suc.prems by simp
  have IH: "length f1 = length fd"
    "\<forall>j<m. \<forall>i<W. (\<forall>c<3. f1 ! (j * ls + i * 4 + c) = px ! ((j * W + i) * 4 + c)) \<and>
                f1 ! (j * ls + i * 4 + 3) = 255"
    "\<forall>k. m * ls \<le> k \<longrightarrow> f1 ! k = fd ! k"
    using Suc.IH[OF ml] unfolding f1_def by simp_all
  have st: "foldl (\<lambda>fd j. foldl (export_pixel px W ls j) fd [0..<W]) fd [0..<Suc m] = f2"
    by (simp add: f1_def f2_def)
  have ln: "m * ls + 4 * W \<le> length f1" using Suc.prems assms(2) IH(1) by simp
  have row: "length f2 = length f1"
    "\<forall>i<W. (\<forall>c<3. f2 ! (m * ls + i * 4 + c) = px ! ((m * W + i) * 4 + c)) \<and> f2 ! (m * ls + i * 4 + 3) = 255"
    "\<forall>k. k < m * ls \<or> m * ls + 4 * W \<le> k \<longrightarrow> f2 ! k = f1 ! k"
    using export_row[OF ln, where px = px and W = W] unfolding f2_def by simp_all
  have cells: "(\<forall>c<3. f2 ! (j * ls + i * 4 + c) = px ! ((j * W + i) * 4 + c)) \<and> f2 ! (j * ls + i * 4 + 3) = 255"
    if ji: "j < Suc m" "i < W" for j i
  proof -
    consider "j < m" | "j = m" using ji(1) by linarith
    then show ?thesis
    proof cases
      case 1
      have "Suc j * ls \<le> m * ls" using 1 by (intro mult_le_mono1) simp
      then have b: "j * ls + i * 4 + c < m * ls" if c4: "c < 4" for c using c4 ji(2) assms(2) by simp
      have "f2 ! (j * ls + i * 4 + c) = f1 ! (j * ls + i * 4 + c)" if c4: "c < 4" for c
        using row(3) b[OF c4] by simp
      then show ?thesis using IH(2) 1 ji(2) by simp
    next
      case 2
      then show ?thesis using row(2) ji(2) by simp
    qed
  qed
  have rest: "\<forall>k. Suc m * ls \<le> k \<longrightarrow> f2 ! k = fd ! k"
  proof (intro allI impI)
    fix k assume k: "Suc m * ls \<le> k"
    have "m * ls + 4 * W \<le> k" "m * ls \<le> k" using k assms(2) by simp_all
    then show "f2 ! k = fd ! k" using row(3) IH(3) by simp
  qed
  show ?case unfolding st using row(1) IH(1) cells rest by simp
qed

lemma export_frame_channels:
  assumes "frame_ok W H pic" "i < W" "j < H"
  shows "\<forall>c<3. fdata (export_frame px W H pic) ! (j * linesize pic + i * 4 + c) = channel px W i j c"
    "fdata (export_frame px W H pic) ! (j * linesize pic + i * 4 + 3) = 255"
    "linesize (export_frame px W H pic) = linesize pic"
    "length (fdata (export_frame px W H pic)) = length (fdata pic)"
proof -
  have a: "4 * W \<le> linesize pic" "H * linesize pic \<le> length (fdata pic)"
    using assms(1) by (simp_all add: frame_ok_def)
  note r = export_rows[OF a, where px = px]
  show "\<forall>c<3. fdata (export_frame px W H pic) ! (j * linesize pic + i * 4 + c) = channel px W i j c"
    using r assms(2,3) by (simp add: export_frame_def channel_def)
  show "fdata (export_frame px W H pic) ! (j * linesize pic + i * 4 + 3) = 255"
    using r assms(2,3) by (simp add: export_frame_def)
  show "linesize (export_frame px W H pic) = linesize pic" by (simp add: export_frame_def)
  show "length (fdata (export_frame px W H pic)) = length (fdata pic)"
    using r by (simp add: export_frame_def)
qed

subsection \<open>The decoder's reading of the rulers\<close>

lemma load_x_fold:
  assumes "pos c + 3 * n \<le> length (data c)"
  shows "\<exists>c'. foldE load_xError c [0..<n] = Inr c' \<and> pixels c' = pixels c \<and> yError c' = yError c \<and>
              data c' = data c \<and> size' c' = size' c \<and> pos c' = pos c + 3 * n \<and>
              length (xError c') = length (xError c) \<and>
              (\<forall>i<n. i < length (xError c) \<longrightarrow> xError c' ! i = get_le24 (data c) (pos c + 3 * i)) \<and>
              (\<forall>i. n \<le> i \<longrightarrow> xError c' ! i = xError c ! i)"
  using assms
proof (induction n)
  case 0
  then show ?case by simp
next
  case (Suc n)
  obtain c1 where c1: "foldE load_xError c [0..<n] = Inr c1" "pixels c1 = pixels c" "yError c1 = yError c"
    "data c1 = data c" "size' c1 = size' c" "pos c1 = pos c + 3 * n" "length (xError c1) = length (xError c)"
    "\<forall>i<n. i < length (xError c) \<longrightarrow> xError c1 ! i = get_le24 (data c) (pos c + 3 * i)"
    "\<forall>i. n \<le> i \<longrightarrow> xError c1 ! i = xError c ! i"
    using Suc.IH Suc.prems by auto
  let ?c2 = "c1\<lparr>xError := (xError c1)[n := get_le24 (data c) (pos c + 3 * n)], pos := pos c + 3 * n + 3\<rparr>"
  have l: "load_xError c1 n = Inr ?c2" using Suc.prems c1(4,6) by (simp add: load_xError_def)
  have st: "foldE load_xError c [0..<Suc n] = Inr ?c2"
    using foldE_append[of load_xError c "[0..<n]" "[n]"] c1(1) l by simp
  have cells: "\<forall>i<Suc n. i < length (xError c) \<longrightarrow> xError ?c2 ! i = get_le24 (data c) (pos c + 3 * i)"
    using c1(7,8) by (auto simp: nth_list_update less_Suc_eq)
  have rest: "\<forall>i. Suc n \<le> i \<longrightarrow> xError ?c2 ! i = xError c ! i" using c1(9) by simp
  show ?case using st c1(2-7) cells rest by simp
qed

lemma load_y_fold:
  assumes "pos c + 3 * n \<le> length (data c)"
  shows "\<exists>c'. foldE load_yError c [0..<n] = Inr c' \<and> pixels c' = pixels c \<and> xError c' = xError c \<and>
              data c' = data c \<and> size' c' = size' c \<and> pos c' = pos c + 3 * n \<and>
              length (yError c') = length (yError c) \<and>
              (\<forall>i<n. i < length (yError c) \<longrightarrow> yError c' ! i = get_le24 (data c) (pos c + 3 * i)) \<and>
              (\<forall>i. n \<le> i \<longrightarrow> yError c' ! i = yError c ! i)"
  using assms
proof (induction n)
  case 0
  then show ?case by simp
next
  case (Suc n)
  obtain c1 where c1: "foldE load_yError c [0..<n] = Inr c1" "pixels c1 = pixels c" "xError c1 = xError c"
    "data c1 = data c" "size' c1 = size' c" "pos c1 = pos c + 3 * n" "length (yError c1) = length (yError c)"
    "\<forall>i<n. i < length (yError c) \<longrightarrow> yError c1 ! i = get_le24 (data c) (pos c + 3 * i)"
    "\<forall>i. n \<le> i \<longrightarrow> yError c1 ! i = yError c ! i"
    using Suc.IH Suc.prems by auto
  let ?c2 = "c1\<lparr>yError := (yError c1)[n := get_le24 (data c) (pos c + 3 * n)], pos := pos c + 3 * n + 3\<rparr>"
  have l: "load_yError c1 n = Inr ?c2" using Suc.prems c1(4,6) by (simp add: load_yError_def)
  have st: "foldE load_yError c [0..<Suc n] = Inr ?c2"
    using foldE_append[of load_yError c "[0..<n]" "[n]"] c1(1) l by simp
  have cells: "\<forall>i<Suc n. i < length (yError c) \<longrightarrow> yError ?c2 ! i = get_le24 (data c) (pos c + 3 * i)"
    using c1(7,8) by (auto simp: nth_list_update less_Suc_eq)
  have rest: "\<forall>i. Suc n \<le> i \<longrightarrow> yError ?c2 ! i = yError c ! i" using c1(9) by simp
  show ?case using st c1(2-7) cells rest by simp
qed

subsection \<open>The two drivers\<close>

lemma splash_encode_run:
  assumes enc: "splash_encode ctx W H fn alloc pic = Some (Inr (pkt, gp, ctx'))"
    and host: "\<forall>n buf. alloc n = Inr buf \<longrightarrow> length buf = n"
    and W: "0 < W" "0 < H"
    and lx: "length (xError ctx) = W" and ly: "length (yError ctx) = H"
    and lp: "length (pixels ctx) = W * H * 4"
  shows "\<exists>e mp. enc_run W H pic mp e ctx' \<and> ctx_ok W H e \<and> pixels e = pixels ctx \<and>
           radius e = radius ctx \<and> pos e = 3 * W + 3 * H \<and>
           (\<forall>i<W. get_le24 (data e) (3 * i) = xError e ! i) \<and>
           (\<forall>j<H. get_le24 (data e) (3 * W + 3 * j) = yError e ! j) \<and>
           pdata pkt = header (radius ctx) @ data ctx' \<and> psize pkt = HEADER_LENGTH + pos ctx' \<and> gp"
proof -
  let ?n = "(HEADER_LENGTH + W + H + W * H) * 3"
  obtain buf where buf: "alloc ?n = Inr buf"
    using enc by (cases "alloc ?n") (simp_all add: splash_encode_def)
  have lb: "length buf = ?n" using host buf by blast
  define c1 where "c1 = ctx\<lparr>data := drop HEADER_LENGTH buf, pos := 0,
                              size' := int (length buf) - int HEADER_LENGTH\<rparr>"
  define c2 where "c2 = emit_xError pic W H c1"
  define c3 where "c3 = emit_yError pic W H c2"
  define c4 where "c4 = c3\<lparr>numPixels := 0\<rparr>"
  define mp where "mp = (if fn = 0 then max_pixels W H (ppk ctx) else max_pixels W H (ppf ctx))"
  have ld: "length (data c1) = 24 + 3 * W + 3 * H + 3 * (W * H)"
    by (simp add: c1_def lb HEADER_LENGTH_def)
  have x: "pixels c2 = pixels c1" "yError c2 = yError c1" "radius c2 = radius c1"
    "pos c2 = 3 * W" "length (xError c2) = W" "length (data c2) = length (data c1)"
    "\<forall>i<W. xError c2 ! i = nat (column_error (pixels c1) pic W H i) \<and>
           get_le24 (data c2) (3 * i) = xError c2 ! i"
    using emit_x_fold[of W c1 pic W H, folded emit_xError_def c2_def] ld lx
    by (simp_all add: c1_def)
  have y: "pixels c3 = pixels c2" "xError c3 = xError c2" "radius c3 = radius c2"
    "pos c3 = 3 * W + 3 * H" "length (yError c3) = H" "length (data c3) = length (data c2)"
    "\<forall>j<H. yError c3 ! j = nat (row_error (pixels c2) pic W H j) \<and>
           get_le24 (data c3) (3 * W + 3 * j) = yError c3 ! j"
    "\<forall>k<3 * W. data c3 ! k = data c2 ! k"
    using emit_y_fold[of H c2 pic W H, folded emit_yError_def c3_def] x(2,4,6) ld ly
    by (simp_all add: c1_def)
  have gx: "get_le24 (data c3) (3 * i) = xError c3 ! i" if i: "i < W" for i
  proof -
    have "get_le24 (data c3) (3 * i) = get_le24 (data c2) (3 * i)"
      by (rule get_le24_cong) (use y(8) i in simp_all)
    then show ?thesis using x(7) y(2) i by simp
  qed
  have ax: "list_all (\<lambda>e. e < 2 ^ 24) (xError c3)"
    unfolding list_all_length
  proof (intro allI impI)
    fix i assume "i < length (xError c3)"
    then have i: "i < W" using y(2) x(5) by simp
    have "xError c3 ! i = nat (column_error (pixels c1) pic W H i)" using x(7) y(2) i by simp
    then show "xError c3 ! i < 2 ^ 24" using column_error_range[of "pixels c1" pic W H i] by (simp add: nat_less_iff)
  qed
  have ay: "list_all (\<lambda>e. e < 2 ^ 24) (yError c3)"
    unfolding list_all_length
  proof (intro allI impI)
    fix j assume "j < length (yError c3)"
    then have j: "j < H" using y(5) by simp
    have "yError c3 ! j = nat (row_error (pixels c2) pic W H j)" using y(7) j by simp
    then show "yError c3 ! j < 2 ^ 24" using row_error_range[of "pixels c2" pic W H j] by (simp add: nat_less_iff)
  qed
  have ok: "ctx_ok W H c4"
    using W x(1,5) y(1,2,5) lp ax ay by (simp add: ctx_ok_def c4_def c1_def)
  have loop: "(case encode_loop W H pic mp c4 of
                 None \<Rightarrow> None
               | Some (Inl e) \<Rightarrow> Some (Inl e)
               | Some (Inr ctx5) \<Rightarrow>
                   Some (Inr (\<lparr>pdata = header (radius ctx) @ data ctx5,
                               psize = HEADER_LENGTH + pos ctx5, flag_key = True\<rparr>, True, ctx5)))
              = Some (Inr (pkt, gp, ctx'))"
    using enc buf unfolding splash_encode_def c1_def c2_def c3_def c4_def mp_def Let_def by simp
  then have el: "encode_loop W H pic mp c4 = Some (Inr ctx')"
    and pk: "pkt = \<lparr>pdata = header (radius ctx) @ data ctx', psize = HEADER_LENGTH + pos ctx', flag_key = True\<rparr>"
    and gp: gp
    by (auto split: option.splits sum.splits)
  have run: "enc_run W H pic mp c4 ctx'" using encode_loop_run[OF el] by simp
  show ?thesis
    using run ok x(1,3) y(1,3,4,7) gx pk gp
    by (intro exI[of _ c4] exI[of _ mp]) (simp add: c4_def c1_def)
qed

lemma header_bytes:
  "length (header r) = 12" "get_le24 (header r @ d) 0 = 12"
  "(header r @ d) ! 10 = word_of_nat r"
  by (simp_all add: header_def get_le24_def)

lemma decode_of_encode:
  assumes enc: "splash_encode ectx W H fn alloc pic = Some (Inr (pkt, gp, ectx'))"
    and host: "\<forall>n buf. alloc n = Inr buf \<longrightarrow> length buf = n"
    and rad: "radius ectx < 256"
    and W: "0 < W" "0 < H"
    and lx: "length (xError ectx) = W" and ly: "length (yError ectx) = H"
    and lp: "length (pixels ectx) = W * H * 4"
    and dp: "pixels dctx = pixels ectx"
    and dx: "length (xError dctx) = W" and dy: "length (yError dctx) = H"
    and fr: "frame_ok W H opic"
    and sz: "psize avpkt = psize pkt" and ln: "psize pkt \<le> length (pdata avpkt)"
    and agree: "\<forall>k<psize pkt. pdata avpkt ! k = pdata pkt ! k"
  shows "\<exists>frame dctx'.
           splash_decode dctx W H (Inr opic) avpkt = Some (Inr (frame, True, int (psize pkt), dctx')) \<and>
           pixels dctx' = pixels ectx' \<and> linesize frame = linesize opic \<and>
           (\<forall>i<W. \<forall>j<H. (\<forall>c<3. fdata frame ! (j * linesize opic + i * 4 + c) = channel (pixels ectx') W i j c) \<and>
                          fdata frame ! (j * linesize opic + i * 4 + 3) = 255)"
proof -
  obtain e mp where run: "enc_run W H pic mp e ectx'" and ok: "ctx_ok W H e"
    and pe: "pixels e = pixels ectx" and re: "radius e = radius ectx" and po: "pos e = 3 * W + 3 * H"
    and gx: "\<forall>i<W. get_le24 (data e) (3 * i) = xError e ! i"
    and gy: "\<forall>j<H. get_le24 (data e) (3 * W + 3 * j) = yError e ! j"
    and pd: "pdata pkt = header (radius ectx) @ data ectx'"
    and ps: "psize pkt = HEADER_LENGTH + pos ectx'"
    using splash_encode_run[OF enc host W lx ly lp] by blast
  note st = enc_run_stream[OF run]
  let ?P = "pdata avpkt"
  let ?D = "drop 12 ?P"
  have ps': "psize pkt = 12 + pos ectx'" using ps by (simp add: HEADER_LENGTH_def)
  have pge: "3 * W + 3 * H \<le> pos ectx'" using st po by simp
  have lP: "12 + pos ectx' \<le> length ?P" using ln ps' by simp
  have P: "?P ! k = (header (radius ectx) @ data ectx') ! k" if k: "k < 12 + pos ectx'" for k
    using agree k ps' pd by simp
  have hdr: "get_le24 ?P 0 = 12"
  proof -
    have "get_le24 ?P 0 = get_le24 (header (radius ectx) @ data ectx') 0"
      by (rule get_le24_cong) (simp_all add: P)
    then show ?thesis by (simp add: header_bytes)
  qed
  have r: "unat (?P ! 10) = radius ectx"
  proof -
    have "?P ! 10 = word_of_nat (radius ectx)" using P[of 10] by (simp add: header_bytes)
    then show ?thesis using rad by (simp add: unat_of_nat)
  qed
  have D: "?D ! k = data ectx' ! k" if k: "k < pos ectx'" for k
  proof -
    have "?D ! k = ?P ! (12 + k)" using lP by (simp add: nth_drop)
    also have "\<dots> = (header (radius ectx) @ data ectx') ! (12 + k)" using P[of "12 + k"] k by simp
    also have "\<dots> = data ectx' ! k" by (simp add: nth_append header_bytes)
    finally show ?thesis .
  qed
  have lD: "pos ectx' \<le> length ?D" using lP by simp
  have De: "?D ! k = data e ! k" if k: "k < 3 * W + 3 * H" for k
    using D[of k] st k po pge by simp
  define c1 where "c1 = dctx\<lparr>data := ?D, pos := 0, size' := int (psize avpkt) - int HEADER_LENGTH\<rparr>"
  obtain c2 where c2: "foldE load_xError c1 [0..<W] = Inr c2" "pixels c2 = pixels c1" "yError c2 = yError c1"
      "data c2 = data c1" "size' c2 = size' c1" "pos c2 = 3 * W" "length (xError c2) = W"
      "\<forall>i<W. xError c2 ! i = get_le24 ?D (3 * i)"
    using load_x_fold[of c1 W] lD pge dx by (auto simp: c1_def)
  obtain c3 where c3: "foldE load_yError c2 [0..<H] = Inr c3" "pixels c3 = pixels c2" "xError c3 = xError c2"
      "data c3 = data c2" "size' c3 = size' c2" "pos c3 = 3 * W + 3 * H" "length (yError c3) = H"
      "\<forall>j<H. yError c3 ! j = get_le24 ?D (3 * W + 3 * j)"
    using load_y_fold[of c2 H] lD pge dy c2(3,4,6) by (auto simp: c1_def)
  have xe: "xError c3 = xError e"
  proof (rule nth_equalityI)
    show "length (xError c3) = length (xError e)" using c3(3) c2(7) ok by (simp add: ctx_ok_def)
  next
    fix i assume "i < length (xError c3)"
    then have i: "i < W" using c3(3) c2(7) by simp
    have "get_le24 ?D (3 * i) = get_le24 (data e) (3 * i)"
      by (rule get_le24_cong) (use i in \<open>simp_all add: De\<close>)
    then show "xError c3 ! i = xError e ! i" using c2(8) c3(3) gx i by simp
  qed
  have ye: "yError c3 = yError e"
  proof (rule nth_equalityI)
    show "length (yError c3) = length (yError e)" using c3(7) ok by (simp add: ctx_ok_def)
  next
    fix j assume "j < length (yError c3)"
    then have j: "j < H" using c3(7) by simp
    have "get_le24 ?D (3 * W + 3 * j) = get_le24 (data e) (3 * W + 3 * j)"
      by (rule get_le24_cong) (use j in \<open>simp_all add: De\<close>)
    then show "yError c3 ! j = yError e ! j" using c3(8) gy j by simp
  qed
  have view: "same_view e c3"
    using xe ye c3(2,6) c2(2) po pe dp by (simp add: same_view_def c1_def)
  have d3: "data c3 = ?D" using c3(4) c2(4) by (simp add: c1_def)
  have s3: "size' c3 = int (pos ectx')" using c3(5) c2(5) sz ps' by (simp add: c1_def HEADER_LENGTH_def)
  have pre: "same_view e c3 \<and> (\<forall>k. pos e \<le> k \<and> k < pos ectx' \<longrightarrow> data c3 ! k = data ectx' ! k) \<and>
             pos ectx' \<le> length (data c3) \<and> size' c3 = int (pos ectx')"
  proof -
    have a: "\<forall>k. pos e \<le> k \<and> k < pos ectx' \<longrightarrow> data c3 ! k = data ectx' ! k"
      unfolding d3 using D by blast
    have b: "pos ectx' \<le> length (data c3)" unfolding d3 by (rule lD)
    show ?thesis using view a b s3 by blast
  qed
  obtain d' where d': "decode_loop W H opic (radius e) c3 = Some (Inr d')" "pixels d' = pixels ectx'"
    using enc_run_decode[OF run, rule_format, OF pre, of opic] by blast
  let ?frame = "export_frame (pixels d') W H opic\<lparr>key_frame := True, pict_type := AV_PICTURE_TYPE_I\<rparr>"
  have l11: "\<not> length ?P < HEADER_OFS_RADIUS + 1" using lP by (simp add: HEADER_OFS_RADIUS_def)
  have "splash_decode dctx W H (Inr opic) avpkt = Some (Inr (?frame, True, int (psize avpkt), d'))"
    unfolding splash_decode_def
    using l11 hdr r c2(1) c3(1) d'(1) re
    by (simp add: Let_def c1_def[symmetric] HEADER_OFS_RADIUS_def)
  then have dec: "splash_decode dctx W H (Inr opic) avpkt = Some (Inr (?frame, True, int (psize pkt), d'))"
    by (simp only: sz)
  have ch: "\<forall>i<W. \<forall>j<H. (\<forall>c<3. fdata ?frame ! (j * linesize opic + i * 4 + c) = channel (pixels ectx') W i j c) \<and>
                          fdata ?frame ! (j * linesize opic + i * 4 + 3) = 255"
    using export_frame_channels(1,2)[OF fr, of _ _ "pixels d'"] d'(2) by simp
  have lsz: "linesize ?frame = linesize opic" by (simp add: export_frame_def)
  show ?thesis using dec d'(2) ch lsz by blast
qed

subsection \<open>The engine returns\<close>

text \<open>
  The engine has no error return of its own, and with enough room in the stream for one
  sample per exact perpendicular line it reads and writes inside the buffer.
\<close>

lemma read_sample_not_returned: "read_sample s pic ed i j \<noteq> Inl (Returned e)"
  by (simp add: read_sample_def Let_def)

lemma splat_pixel_plain:
  "splat_pixel W r m i j src s c \<noteq> Inl (Returned e) \<and>
   splat_pixel W r m i j src s c \<noteq> Inl StreamOutOfBounds"
  by (auto simp: splat_pixel_def Let_def split: prod.splits)

lemma splat_fold_plain:
  "foldE (splat_pixel W r m i j src) s cells \<noteq> Inl (Returned e)"
  "foldE (splat_pixel W r m i j src) s cells \<noteq> Inl StreamOutOfBounds"
proof -
  show "foldE (splat_pixel W r m i j src) s cells \<noteq> Inl (Returned e)"
    by (rule foldE_never[where P = "\<lambda>c. True"]) (simp_all add: splat_pixel_plain)
  show "foldE (splat_pixel W r m i j src) s cells \<noteq> Inl StreamOutOfBounds"
    by (rule foldE_never[where P = "\<lambda>c. True"]) (simp_all add: splat_pixel_plain)
qed

lemma cross_col_not_returned: "cross_col W H pic r ed i minI maxI m s j \<noteq> Inl (Returned e)"
  using read_sample_not_returned[of s pic ed i j e]
  by (auto simp: cross_col_def Let_def splat_fold_plain split: sum.splits)

lemma cross_row_not_returned: "cross_row W H pic r ed j minJ maxJ m s i \<noteq> Inl (Returned e)"
  using read_sample_not_returned[of s pic ed i j e]
  by (auto simp: cross_row_def Let_def splat_fold_plain split: sum.splits)

lemma updateLines_not_returned: "updateLines ctx W H pic r ed \<noteq> Inl (Returned e)"
proof -
  have c: "foldE (cross_col W H pic r ed i lo hi m) s js \<noteq> Inl (Returned e)" for i lo hi m s js
    by (rule foldE_never[where P = "\<lambda>c. True"]) (simp_all add: cross_col_not_returned)
  have r: "foldE (cross_row W H pic r ed j lo hi m) s is \<noteq> Inl (Returned e)" for j lo hi m s "is"
    by (rule foldE_never[where P = "\<lambda>c. True"]) (simp_all add: cross_row_not_returned)
  obtain wx xi where wx: "worst (xError ctx) W = (wx, xi)" by (cases "worst (xError ctx) W")
  obtain wy yj where wy: "worst (yError ctx) H = (wy, yj)" by (cases "worst (yError ctx) H")
  show ?thesis
    unfolding updateLines_def wx wy using c r by (auto simp: Let_def split: sum.splits)
qed

lemma cross_col_in_stream:
  assumes "yError s ! j = 0 \<longrightarrow> pos s + 3 \<le> length (data s)"
  shows "cross_col W H pic r ed i minI maxI m s j \<noteq> Inl StreamOutOfBounds"
proof (cases "yError s ! j = 0")
  case False
  then show ?thesis by (simp add: cross_col_def)
next
  case True
  then have "\<not> length (data s) < pos s + 3" using assms by simp
  then have "\<exists>p. read_sample s pic ed i j = Inr p" by (simp add: read_sample_def Let_def)
  then obtain src s1 where "read_sample s pic ed i j = Inr (src, s1)" by auto
  then show ?thesis using True by (simp add: cross_col_def Let_def splat_fold_plain)
qed

lemma cross_row_in_stream:
  assumes "xError s ! i = 0 \<longrightarrow> pos s + 3 \<le> length (data s)"
  shows "cross_row W H pic r ed j minJ maxJ m s i \<noteq> Inl StreamOutOfBounds"
proof (cases "xError s ! i = 0")
  case False
  then show ?thesis by (simp add: cross_row_def)
next
  case True
  then have "\<not> length (data s) < pos s + 3" using assms by simp
  then have "\<exists>p. read_sample s pic ed i j = Inr p" by (simp add: read_sample_def Let_def)
  then obtain src s1 where "read_sample s pic ed i j = Inr (src, s1)" by auto
  then show ?thesis using True by (simp add: cross_row_def Let_def splat_fold_plain)
qed

lemma not_fault_cases:
  assumes "\<And>e. x \<noteq> Inl (Returned e)" "x \<noteq> Inl CanvasOutOfBounds" "x \<noteq> Inl StreamOutOfBounds"
    "x \<noteq> Inl AssertFailed"
  shows "\<exists>y. x = Inr y"
proof (cases x)
  case (Inl f)
  then show ?thesis using assms by (cases f) auto
next
  case (Inr y)
  then show ?thesis by simp
qed

lemma scan_col_total:
  assumes len: "length (pixels s0) = W * H * 4" and i: "i < W" "minI \<le> maxI" "maxI < W"
    and z: "xError s0 ! i = 0" and n: "n \<le> H"
    and room: "pos s0 + 3 * exact_before (yError s0) n \<le> length (data s0)"
  shows "\<exists>t. foldE (cross_col W H pic r ed i minI maxI m) s0 [0..<n] = Inr t \<and> scan_rel s0 t \<and>
             pos t = pos s0 + 3 * exact_before (yError s0) n"
  using n room
proof (induction n)
  case 0
  then show ?case by (simp add: exact_before_def)
next
  case (Suc n)
  have "pos s0 + 3 * exact_before (yError s0) n \<le> length (data s0)"
    using Suc.prems(2) exact_before_mono[of n "Suc n" "yError s0"] by simp
  then obtain t where t: "foldE (cross_col W H pic r ed i minI maxI m) s0 [0..<n] = Inr t" "scan_rel s0 t"
    "pos t = pos s0 + 3 * exact_before (yError s0) n"
    using Suc.IH Suc.prems(1) by auto
  have rl: "xError t = xError s0" "yError t = yError s0" "length (pixels t) = W * H * 4"
    "length (data t) = length (data s0)"
    using t(2) len by (simp_all add: scan_rel_def)
  have nH: "n < H" using Suc.prems(1) by simp
  have st: "yError t ! n = 0 \<longrightarrow> pos t + 3 \<le> length (data t)"
    using Suc.prems(2) t(3) rl by (auto simp: exact_before_Suc split: if_splits)
  obtain t' where t': "cross_col W H pic r ed i minI maxI m t n = Inr t'"
    using not_fault_cases[of "cross_col W H pic r ed i minI maxI m t n"]
      cross_col_not_returned[of W H pic r ed i minI maxI m t n]
      cross_col_no_canvas_fault[OF rl(3) i(1) nH i(2,3), of pic r ed m]
      cross_col_in_stream[OF st, of W H pic r ed i minI maxI m]
      cross_col_no_assert[of t i W H pic r ed minI maxI m n] z rl(1)
    by auto
  note cr = cross_col_rel[OF t']
  have fo: "foldE (cross_col W H pic r ed i minI maxI m) s0 [0..<Suc n] = Inr t'"
    using foldE_append[of "cross_col W H pic r ed i minI maxI m" s0 "[0..<n]" "[n]"] t(1) t' by simp
  have "pos t' = pos s0 + 3 * exact_before (yError s0) (Suc n)"
    using cr t(3) rl(2) by (auto simp: exact_before_Suc split: if_splits)
  then show ?case using fo scan_rel_trans[OF t(2)] cr by blast
qed

lemma scan_row_total:
  assumes len: "length (pixels s0) = W * H * 4" and j: "j < H" "minJ \<le> maxJ" "maxJ < H"
    and z: "yError s0 ! j = 0" and n: "n \<le> W"
    and room: "pos s0 + 3 * exact_before (xError s0) n \<le> length (data s0)"
  shows "\<exists>t. foldE (cross_row W H pic r ed j minJ maxJ m) s0 [0..<n] = Inr t \<and> scan_rel s0 t \<and>
             pos t = pos s0 + 3 * exact_before (xError s0) n"
  using n room
proof (induction n)
  case 0
  then show ?case by (simp add: exact_before_def)
next
  case (Suc n)
  have "pos s0 + 3 * exact_before (xError s0) n \<le> length (data s0)"
    using Suc.prems(2) exact_before_mono[of n "Suc n" "xError s0"] by simp
  then obtain t where t: "foldE (cross_row W H pic r ed j minJ maxJ m) s0 [0..<n] = Inr t" "scan_rel s0 t"
    "pos t = pos s0 + 3 * exact_before (xError s0) n"
    using Suc.IH Suc.prems(1) by auto
  have rl: "xError t = xError s0" "yError t = yError s0" "length (pixels t) = W * H * 4"
    "length (data t) = length (data s0)"
    using t(2) len by (simp_all add: scan_rel_def)
  have nW: "n < W" using Suc.prems(1) by simp
  have st: "xError t ! n = 0 \<longrightarrow> pos t + 3 \<le> length (data t)"
    using Suc.prems(2) t(3) rl by (auto simp: exact_before_Suc split: if_splits)
  obtain t' where t': "cross_row W H pic r ed j minJ maxJ m t n = Inr t'"
    using not_fault_cases[of "cross_row W H pic r ed j minJ maxJ m t n"]
      cross_row_not_returned[of W H pic r ed j minJ maxJ m t n]
      cross_row_no_canvas_fault[OF rl(3) nW j(1) j(2,3), of pic r ed m]
      cross_row_in_stream[OF st, of W H pic r ed j minJ maxJ m]
      cross_row_no_assert[of t j W H pic r ed minJ maxJ m n] z rl(2)
    by auto
  note cr = cross_row_rel[OF t']
  have fo: "foldE (cross_row W H pic r ed j minJ maxJ m) s0 [0..<Suc n] = Inr t'"
    using foldE_append[of "cross_row W H pic r ed j minJ maxJ m" s0 "[0..<n]" "[n]"] t(1) t' by simp
  have "pos t' = pos s0 + 3 * exact_before (xError s0) (Suc n)"
    using cr t(3) rl(1) by (auto simp: exact_before_Suc split: if_splits)
  then show ?case using fo scan_rel_trans[OF t(2)] cr by blast
qed

lemma updateLines_total:
  assumes ok: "ctx_ok W H ctx"
    and nz: "fst (worst (xError ctx) W) + fst (worst (yError ctx) H) \<noteq> 0"
    and room: "pos ctx + 3 * (if fst (worst (yError ctx) H) < fst (worst (xError ctx) W)
                              then exact_before (yError ctx) H else exact_before (xError ctx) W)
               \<le> length (data ctx)"
  shows "\<exists>ctx'. updateLines ctx W H pic r ed = Inr (True, ctx') \<and>
           pos ctx' = pos ctx + 3 * (if fst (worst (yError ctx) H) < fst (worst (xError ctx) W)
                                     then exact_before (yError ctx) H else exact_before (xError ctx) W)"
proof -
  obtain wx xi where wx: "worst (xError ctx) W = (wx, xi)" by (cases "worst (xError ctx) W")
  obtain wy yj where wy: "worst (yError ctx) H = (wy, yj)" by (cases "worst (yError ctx) H")
  have W: "0 < W" "0 < H" and lx: "length (xError ctx) = W" and ly: "length (yError ctx) = H"
    and lp: "length (pixels ctx) = W * H * 4"
    and bx: "list_all (\<lambda>e. e < 2 ^ 24) (xError ctx)" and by': "list_all (\<lambda>e. e < 2 ^ 24) (yError ctx)"
    using ok by (simp_all add: ctx_ok_def)
  note p = ctx_ok_pivots[OF ok, unfolded wx wy fst_conv snd_conv]
  have xi: "xi < W" and yj: "yj < H" using p(1,2) lx ly by simp_all
  show ?thesis
  proof (cases "wy < wx")
    case True
    let ?lo = "expand_min (xError ctx) (r - 1) xi" and ?hi = "expand_max (xError ctx) W (r - 1) xi"
    let ?c1 = "ctx\<lparr>xError := rebalance r xi ?lo ?hi (xError ctx)\<rparr>"
    note e = expand_in_bounds[OF xi, of "xError ctx" "r - 1"]
    have z: "xError ?c1 ! xi = 0" using rebalance_props(1)[OF p(1) bx, where r = r] lx by simp
    have lo_hi: "?lo \<le> ?hi" using e by linarith
    have rm: "pos ?c1 + 3 * exact_before (yError ?c1) H \<le> length (data ?c1)"
      using room True wx wy by simp
    obtain t where t: "foldE (cross_col W H pic r ed xi ?lo ?hi (xError ctx ! xi)) ?c1 [0..<H] = Inr t"
        "pos t = pos ?c1 + 3 * exact_before (yError ?c1) H"
      using scan_col_total[of ?c1 W H xi ?lo ?hi H pic r ed "xError ctx ! xi"] lp xi lo_hi e(2) z rm
      by auto
    have "updateLines ctx W H pic r ed = Inr (True, t)"
      unfolding updateLines_def wx wy using nz True t(1) wx wy by (simp add: Let_def)
    then show ?thesis using t(2) True wx wy by simp
  next
    case False
    let ?lo = "expand_min (yError ctx) (r - 1) yj" and ?hi = "expand_max (yError ctx) H (r - 1) yj"
    let ?c1 = "ctx\<lparr>yError := rebalance r yj ?lo ?hi (yError ctx)\<rparr>"
    note e = expand_in_bounds[OF yj, of "yError ctx" "r - 1"]
    have z: "yError ?c1 ! yj = 0" using rebalance_props(1)[OF p(2) by', where r = r] ly by simp
    have lo_hi: "?lo \<le> ?hi" using e by linarith
    have rm: "pos ?c1 + 3 * exact_before (xError ?c1) W \<le> length (data ?c1)"
      using room False wx wy by simp
    obtain t where t: "foldE (cross_row W H pic r ed yj ?lo ?hi (yError ctx ! yj)) ?c1 [0..<W] = Inr t"
        "pos t = pos ?c1 + 3 * exact_before (xError ?c1) W"
      using scan_row_total[of ?c1 W H yj ?lo ?hi W pic r ed "yError ctx ! yj"] lp yj lo_hi e(2) z rm
      by auto
    have "updateLines ctx W H pic r ed = Inr (True, t)"
      unfolding updateLines_def wx wy using nz False t(1) wx wy by (simp add: Let_def)
    then show ?thesis using t(2) False wx wy by simp
  qed
qed

text \<open>
  Claim C8. On a well-formed context the engine returns false when every entry of both
  rulers is zero, and then the whole context (canvas, rulers, stream cursor) is as
  before. In every other case, given room in the stream for one sample per exact
  perpendicular line (the engine reads or writes three bytes for each, unchecked), it
  returns true: it ends in no fault, advances the cursor by three bytes per exact
  perpendicular line and sets the pivot entry of the rebalanced ruler to zero. So
  whenever it returns, the flag is false exactly when both rulers are all zero. When no
  perpendicular line is exact it needs no room: it returns true, consumes and produces no
  sample (cursor, stream, sample count and canvas unchanged), and still rebalances.
\<close>

theorem progress_or_termination:
  assumes "ctx_ok W H ctx"
  shows "((\<forall>k<W. xError ctx ! k = 0) \<and> (\<forall>k<H. yError ctx ! k = 0) \<longrightarrow>
            updateLines ctx W H pic r ed = Inr (False, ctx)) \<and>
         (\<not> ((\<forall>k<W. xError ctx ! k = 0) \<and> (\<forall>k<H. yError ctx ! k = 0)) \<and>
          pos ctx + 3 * (if fst (worst (yError ctx) H) < fst (worst (xError ctx) W)
                         then exact_before (yError ctx) H else exact_before (xError ctx) W)
            \<le> length (data ctx) \<longrightarrow>
            (\<exists>ctx'. updateLines ctx W H pic r ed = Inr (True, ctx') \<and>
                pos ctx' = pos ctx + 3 * (if fst (worst (yError ctx) H) < fst (worst (xError ctx) W)
                                          then exact_before (yError ctx) H
                                          else exact_before (xError ctx) W) \<and>
                (if fst (worst (yError ctx) H) < fst (worst (xError ctx) W)
                 then xError ctx' ! snd (worst (xError ctx) W) = 0 \<and> yError ctx' = yError ctx
                 else yError ctx' ! snd (worst (yError ctx) H) = 0 \<and> xError ctx' = xError ctx))) \<and>
         (\<forall>b ctx'. updateLines ctx W H pic r ed = Inr (b, ctx') \<longrightarrow>
            (\<not> b \<longleftrightarrow> (\<forall>k<W. xError ctx ! k = 0) \<and> (\<forall>k<H. yError ctx ! k = 0)) \<and>
            (\<not> b \<longrightarrow> ctx' = ctx)) \<and>
         (\<not> ((\<forall>k<W. xError ctx ! k = 0) \<and> (\<forall>k<H. yError ctx ! k = 0)) \<and>
          (if fst (worst (yError ctx) H) < fst (worst (xError ctx) W)
           then \<forall>j<H. yError ctx ! j \<noteq> 0 else \<forall>i<W. xError ctx ! i \<noteq> 0) \<longrightarrow>
            (\<exists>ctx'. updateLines ctx W H pic r ed = Inr (True, ctx') \<and>
                pixels ctx' = pixels ctx \<and> pos ctx' = pos ctx \<and> data ctx' = data ctx \<and>
                numPixels ctx' = numPixels ctx \<and>
                (if fst (worst (yError ctx) H) < fst (worst (xError ctx) W)
                 then xError ctx' ! snd (worst (xError ctx) W) = 0 \<and> yError ctx' = yError ctx
                 else yError ctx' ! snd (worst (yError ctx) H) = 0 \<and> xError ctx' = xError ctx)))"
proof -
  have W: "0 < W" "0 < H" and lx: "length (xError ctx) = W" and ly: "length (yError ctx) = H"
    using assms by (simp_all add: ctx_ok_def)
  let ?zero = "(\<forall>k<W. xError ctx ! k = 0) \<and> (\<forall>k<H. yError ctx ! k = 0)"
  let ?wx = "fst (worst (xError ctx) W)" and ?wy = "fst (worst (yError ctx) H)"
  let ?xi = "snd (worst (xError ctx) W)" and ?yj = "snd (worst (yError ctx) H)"
  have z: "?zero \<longleftrightarrow> ?wx = 0 \<and> ?wy = 0"
    using worst_zero_iff[OF W(1), of "xError ctx"] worst_zero_iff[OF W(2), of "yError ctx"] by simp
  have 1: "?zero \<longrightarrow> updateLines ctx W H pic r ed = Inr (False, ctx)"
    using z by (auto simp: updateLines_def case_prod_beta)
  have 2: "\<not> ?zero \<and>
          pos ctx + 3 * (if ?wy < ?wx then exact_before (yError ctx) H else exact_before (xError ctx) W)
            \<le> length (data ctx) \<longrightarrow>
            (\<exists>ctx'. updateLines ctx W H pic r ed = Inr (True, ctx') \<and>
                pos ctx' = pos ctx + 3 * (if ?wy < ?wx then exact_before (yError ctx) H
                                          else exact_before (xError ctx) W) \<and>
                (if ?wy < ?wx then xError ctx' ! ?xi = 0 \<and> yError ctx' = yError ctx
                 else yError ctx' ! ?yj = 0 \<and> xError ctx' = xError ctx))"
  proof (intro impI, elim conjE)
    assume nz: "\<not> ?zero"
      and room: "pos ctx + 3 * (if ?wy < ?wx then exact_before (yError ctx) H
                                else exact_before (xError ctx) W) \<le> length (data ctx)"
    have s: "?wx + ?wy \<noteq> 0" using nz z by simp
    obtain ctx' where res: "updateLines ctx W H pic r ed = Inr (True, ctx')"
      and ps: "pos ctx' = pos ctx + 3 * (if ?wy < ?wx then exact_before (yError ctx) H
                                         else exact_before (xError ctx) W)"
      using updateLines_total[OF assms s room, of pic r ed] by blast
    have "if ?wy < ?wx then xError ctx' ! ?xi = 0 \<and> yError ctx' = yError ctx
          else yError ctx' ! ?yj = 0 \<and> xError ctx' = xError ctx"
    proof (cases "?wy < ?wx")
      case True
      then show ?thesis using updateLines_rulers(6)[OF assms res] by simp
    next
      case False
      then have le: "?wx \<le> ?wy" by simp
      show ?thesis using updateLines_rulers(7)[OF assms res _ le] False by simp
    qed
    then show "\<exists>ctx'. updateLines ctx W H pic r ed = Inr (True, ctx') \<and>
                pos ctx' = pos ctx + 3 * (if ?wy < ?wx then exact_before (yError ctx) H
                                          else exact_before (xError ctx) W) \<and>
                (if ?wy < ?wx then xError ctx' ! ?xi = 0 \<and> yError ctx' = yError ctx
                 else yError ctx' ! ?yj = 0 \<and> xError ctx' = xError ctx)"
      using res ps by blast
  qed
  have 3: "\<forall>b ctx'. updateLines ctx W H pic r ed = Inr (b, ctx') \<longrightarrow>
            (\<not> b \<longleftrightarrow> ?zero) \<and> (\<not> b \<longrightarrow> ctx' = ctx)"
  proof (intro allI impI)
    fix b ctx' assume res: "updateLines ctx W H pic r ed = Inr (b, ctx')"
    note u = updateLines_rulers[OF assms res]
    show "(\<not> b \<longleftrightarrow> ?zero) \<and> (\<not> b \<longrightarrow> ctx' = ctx)" using u(4,5) z by auto
  qed
  have 4: "\<not> ?zero \<and> (if ?wy < ?wx then \<forall>j<H. yError ctx ! j \<noteq> 0 else \<forall>i<W. xError ctx ! i \<noteq> 0) \<longrightarrow>
            (\<exists>ctx'. updateLines ctx W H pic r ed = Inr (True, ctx') \<and>
                pixels ctx' = pixels ctx \<and> pos ctx' = pos ctx \<and> data ctx' = data ctx \<and>
                numPixels ctx' = numPixels ctx \<and>
                (if ?wy < ?wx then xError ctx' ! ?xi = 0 \<and> yError ctx' = yError ctx
                 else yError ctx' ! ?yj = 0 \<and> xError ctx' = xError ctx))"
  proof (intro impI, elim conjE)
    assume nz: "\<not> ?zero"
      and np: "if ?wy < ?wx then \<forall>j<H. yError ctx ! j \<noteq> 0 else \<forall>i<W. xError ctx ! i \<noteq> 0"
    have s: "?wx + ?wy \<noteq> 0" using nz z by simp
    show "\<exists>ctx'. updateLines ctx W H pic r ed = Inr (True, ctx') \<and>
                pixels ctx' = pixels ctx \<and> pos ctx' = pos ctx \<and> data ctx' = data ctx \<and>
                numPixels ctx' = numPixels ctx \<and>
                (if ?wy < ?wx then xError ctx' ! ?xi = 0 \<and> yError ctx' = yError ctx
                 else yError ctx' ! ?yj = 0 \<and> xError ctx' = xError ctx)"
    proof (cases "?wy < ?wx")
      case True
      let ?c1 = "ctx\<lparr>xError := rebalance r ?xi (expand_min (xError ctx) (r - 1) ?xi)
                    (expand_max (xError ctx) W (r - 1) ?xi) (xError ctx)\<rparr>"
      have "foldE (cross_col W H pic r ed ?xi (expand_min (xError ctx) (r - 1) ?xi)
                    (expand_max (xError ctx) W (r - 1) ?xi) (xError ctx ! ?xi)) ?c1 [0..<H] = Inr ?c1"
        using np True by (intro foldE_skip) (auto simp: cross_col_def)
      then have res: "updateLines ctx W H pic r ed = Inr (True, ?c1)"
        using s True by (simp add: updateLines_def case_prod_beta Let_def)
      show ?thesis using res updateLines_rulers(6)[OF assms res] True by simp
    next
      case False
      let ?c1 = "ctx\<lparr>yError := rebalance r ?yj (expand_min (yError ctx) (r - 1) ?yj)
                    (expand_max (yError ctx) H (r - 1) ?yj) (yError ctx)\<rparr>"
      have "foldE (cross_row W H pic r ed ?yj (expand_min (yError ctx) (r - 1) ?yj)
                    (expand_max (yError ctx) H (r - 1) ?yj) (yError ctx ! ?yj)) ?c1 [0..<W] = Inr ?c1"
        using np False by (intro foldE_skip) (auto simp: cross_row_def)
      then have res: "updateLines ctx W H pic r ed = Inr (True, ?c1)"
        using s False by (simp add: updateLines_def case_prod_beta Let_def)
      have le: "?wx \<le> ?wy" using False by simp
      show ?thesis using res updateLines_rulers(7)[OF assms res _ le] False by simp
    qed
  qed
  show ?thesis using 1 2 3 4 by blast
qed

theorem progress_or_termination_witness:
  "ctx_ok 3 1 ex_ctx \<and>
   updateLines ex_ctx 3 1 ex_pic 5 False = Inr (True, ex_ctx\<lparr>xError := [20, 0, 10]\<rparr>) \<and>
   \<not> ((\<forall>k<3. xError ex_ctx ! k = 0) \<and> (\<forall>k<1. yError ex_ctx ! k = 0)) \<and>
   ctx_ok 3 1 (ex_ctx\<lparr>xError := [0, 0, 0], yError := [0]\<rparr>) \<and>
   updateLines (ex_ctx\<lparr>xError := [0, 0, 0], yError := [0]\<rparr>) 3 1 ex_pic 5 False =
     Inr (False, ex_ctx\<lparr>xError := [0, 0, 0], yError := [0]\<rparr>) \<and>
   ctx_ok 1 1 ex1_ctx \<and> pos ex1_ctx + 3 * exact_before (yError ex1_ctx) 1 \<le> length (data ex1_ctx) \<and>
   (\<exists>ctx'. updateLines ex1_ctx 1 1 ex1_pic 1 True = Inr (True, ctx') \<and> pos ctx' = 9 \<and>
           xError ctx' ! 0 = 0)"
proof -
  have ok0: "ctx_ok 3 1 (ex_ctx\<lparr>xError := [0, 0, 0], yError := [0]\<rparr>)"
    by (simp add: ctx_ok_def ex_ctx_def)
  have z: "(\<forall>k<3. xError (ex_ctx\<lparr>xError := [0, 0, 0], yError := [0]\<rparr>) ! k = 0) \<and>
           (\<forall>k<1. yError (ex_ctx\<lparr>xError := [0, 0, 0], yError := [0]\<rparr>) ! k = 0)"
    by (simp add: less_Suc_eq numeral_3_eq_3)
  have nz: "\<not> ((\<forall>k<3. xError ex_ctx ! k = 0) \<and> (\<forall>k<1. yError ex_ctx ! k = 0))"
    by (simp add: ex_ctx_def)
  note t0 = progress_or_termination[OF ok0, of ex_pic 5 False] and t = progress_or_termination[OF ex_ctx_ok, of ex_pic 5 False]
  have a: "updateLines (ex_ctx\<lparr>xError := [0, 0, 0], yError := [0]\<rparr>) 3 1 ex_pic 5 False =
     Inr (False, ex_ctx\<lparr>xError := [0, 0, 0], yError := [0]\<rparr>)"
    using t0 z by blast
  have w: "worst (xError ex1_ctx) 1 = (321, 0)" "worst (yError ex1_ctx) 1 = (0, 0)"
    by (simp_all add: worst_def ex1_ctx_def)
  have nz1: "\<not> ((\<forall>k<1. xError ex1_ctx ! k = 0) \<and> (\<forall>k<1. yError ex1_ctx ! k = 0))"
    by (simp add: ex1_ctx_def)
  have eb: "exact_before (yError ex1_ctx) 1 = 1" by (simp add: exact_before_def ex1_ctx_def)
  have room: "pos ex1_ctx + 3 * exact_before (yError ex1_ctx) 1 \<le> length (data ex1_ctx)"
    unfolding eb by (simp add: ex1_ctx_def)
  note t1 = progress_or_termination[OF ex1_ctx_ok, of ex1_pic 1 True, unfolded w fst_conv snd_conv]
  have p: "pos ex1_ctx + 3 * exact_before (yError ex1_ctx) 1 = 9" unfolding eb by (simp add: ex1_ctx_def)
  have b: "\<exists>ctx'. updateLines ex1_ctx 1 1 ex1_pic 1 True = Inr (True, ctx') \<and> pos ctx' = 9 \<and>
           xError ctx' ! 0 = 0"
    using t1 nz1 room p by auto
  show ?thesis using t ex_ctx_ok ex_ctx_step ok0 nz a ex1_ctx_ok room b by blast
qed

subsection \<open>The blend weight\<close>











end
